theory Spec2Isabelle
  imports Main "HOL-Library.Sublist"
begin

section \<open>Text and character classes\<close>

text \<open>
  A Python \<open>str\<close> is a sequence of Unicode code points, so a line is a list of code
  points (natural numbers) and its length counts code points. The character classes of
  \<open>str.strip\<close> and of the \<open>re\<close> module (\<open>\s\<close>, \<open>\d\<close>, \<open>\w\<close>, case folding) are
  written out for the ASCII range; what the Unicode character database says about the
  code points from 128 on is not part of the repository and is taken as a parameter, so
  every result below holds whatever that database contains.
\<close>

type_synonym ustring = "nat list"

text \<open>The exceptions that the modelled code can meet; \<open>OtherException\<close> carries the
  name of any other exception class.\<close>

datatype py_exception = PermissionError | NameError | IndexError | OtherException string

record unicode_db =
  uni_space :: "nat \<Rightarrow> bool"
  uni_decimal :: "nat \<Rightarrow> bool"
  uni_alnum :: "nat \<Rightarrow> bool"
  uni_ci_eq :: "nat \<Rightarrow> nat \<Rightarrow> bool"
  uni_ci_range :: "nat \<Rightarrow> nat \<Rightarrow> nat \<Rightarrow> bool"

definition ustr :: "string \<Rightarrow> ustring" where
  "ustr s = map of_char s"

definition is_space :: "unicode_db \<Rightarrow> nat \<Rightarrow> bool" where
  "is_space U c =
     (if c < 128 then (9 \<le> c \<and> c \<le> 13) \<or> (28 \<le> c \<and> c \<le> 32) else uni_space U c)"

definition is_decimal :: "unicode_db \<Rightarrow> nat \<Rightarrow> bool" where
  "is_decimal U c = (if c < 128 then 48 \<le> c \<and> c \<le> 57 else uni_decimal U c)"

definition is_word :: "unicode_db \<Rightarrow> nat \<Rightarrow> bool" where
  "is_word U c =
     (if c < 128
      then (48 \<le> c \<and> c \<le> 57) \<or> (65 \<le> c \<and> c \<le> 90) \<or> (97 \<le> c \<and> c \<le> 122) \<or> c = 95
      else uni_alnum U c)"

definition ascii_lower :: "nat \<Rightarrow> nat" where
  "ascii_lower c = (if 65 \<le> c \<and> c \<le> 90 then c + 32 else c)"

definition ascii_upper :: "nat \<Rightarrow> nat" where
  "ascii_upper c = (if 97 \<le> c \<and> c \<le> 122 then c - 32 else c)"

text \<open>\<open>ci_eq U c x\<close>: under \<open>re.IGNORECASE\<close> the code point \<open>x\<close> of the text matches
  the literal \<open>c\<close> of the pattern.\<close>

definition ci_eq :: "unicode_db \<Rightarrow> nat \<Rightarrow> nat \<Rightarrow> bool" where
  "ci_eq U c x =
     (if c < 128 \<and> x < 128 then ascii_lower x = ascii_lower c else uni_ci_eq U c x)"

definition ci_range :: "unicode_db \<Rightarrow> nat \<Rightarrow> nat \<Rightarrow> nat \<Rightarrow> bool" where
  "ci_range U lo hi x =
     (if x < 128
      then (lo \<le> ascii_lower x \<and> ascii_lower x \<le> hi) \<or> (lo \<le> ascii_upper x \<and> ascii_upper x \<le> hi)
      else uni_ci_range U lo hi x)"

text \<open>\<open>str.strip()\<close>, \<open>str.startswith\<close> and the slices \<open>line[a:b]\<close>, \<open>line[a:]\<close>. A
  slice never fails: a negative offset counts from the end of the line, every offset is
  cut to the line's bounds, and the slice is empty when its end is not after its start.\<close>

definition strip :: "unicode_db \<Rightarrow> ustring \<Rightarrow> ustring" where
  "strip U s = rev (dropWhile (is_space U) (rev (dropWhile (is_space U) s)))"

definition startswith :: "ustring \<Rightarrow> ustring \<Rightarrow> bool" where
  "startswith s p = (take (length p) s = p)"

definition clamp_index :: "nat \<Rightarrow> int \<Rightarrow> nat" where
  "clamp_index n i = (if i < 0 then nat (max 0 (int n + i)) else min (nat i) n)"

definition slice :: "ustring \<Rightarrow> int \<Rightarrow> int \<Rightarrow> ustring" where
  "slice s a b =
     (let lo = clamp_index (length s) a; hi = clamp_index (length s) b
      in take (hi - lo) (drop lo s))"

definition slice_from :: "ustring \<Rightarrow> int \<Rightarrow> ustring" where
  "slice_from s a = drop (clamp_index (length s) a) s"

section \<open>Regular expressions\<close>

text \<open>
  The regular expressions are compiled and run by Python's \<open>re\<close> module; the part of
  it that the twelve patterns use is written out here as a backtracking matcher over
  syntax trees. \<open>In\<close> is a bracket set; the classes
  \<open>\d\<close>, \<open>\w\<close>, \<open>\s\<close> are sets of one class item. \<open>Many lo hi a\<close> is the greedy
  repetition of a one-character atom (\<open>*\<close>, \<open>+\<close>, \<open>?\<close>, \<open>{m,n}\<close>), \<open>Opt\<close> the greedy
  \<open>(?:...)?\<close>, \<open>Group\<close> the capturing group number 1.
\<close>

datatype item = Ch nat | Range nat nat | ClsD | ClsW | ClsS

datatype atom = Lit nat | AnyChar | In "item list"

datatype regex =
    Eps
  | Atom atom
  | Many nat "nat option" atom
  | Opt regex
  | Seq regex regex
  | Alt regex regex
  | Group regex
  | Bol
  | Eol
  | WordB

fun cat :: "regex list \<Rightarrow> regex" where
  "cat [] = Eps"
| "cat [r] = r"
| "cat (r # rs) = Seq r (cat rs)"

fun alt :: "regex list \<Rightarrow> regex" where
  "alt [] = Eps"
| "alt [r] = r"
| "alt (r # rs) = Alt r (alt rs)"

definition lit :: "char \<Rightarrow> regex" where
  "lit c = Atom (Lit (of_char c))"

definition str :: "string \<Rightarrow> regex" where
  "str s = cat (map lit s)"

fun times :: "nat \<Rightarrow> regex \<Rightarrow> regex" where
  "times 0 r = Eps"
| "times (Suc 0) r = r"
| "times (Suc n) r = Seq r (times n r)"

definition chr :: "char \<Rightarrow> item" where
  "chr c = Ch (of_char c)"

definition rng :: "char \<Rightarrow> char \<Rightarrow> item" where
  "rng a b = Range (of_char a) (of_char b)"

fun item_match :: "unicode_db \<Rightarrow> bool \<Rightarrow> item \<Rightarrow> nat \<Rightarrow> bool" where
  "item_match U ic (Ch c) x = (x = c \<or> (ic \<and> ci_eq U c x))"
| "item_match U ic (Range lo hi) x = ((lo \<le> x \<and> x \<le> hi) \<or> (ic \<and> ci_range U lo hi x))"
| "item_match U ic ClsD x = is_decimal U x"
| "item_match U ic ClsW x = is_word U x"
| "item_match U ic ClsS x = is_space U x"

fun atom_match :: "unicode_db \<Rightarrow> bool \<Rightarrow> atom \<Rightarrow> nat \<Rightarrow> bool" where
  "atom_match U ic (Lit c) x = (x = c \<or> (ic \<and> ci_eq U c x))"
| "atom_match U ic AnyChar x = (x \<noteq> 10)"
| "atom_match U ic (In its) x = list_ex (\<lambda>i. item_match U ic i x) its"

text \<open>
  The matcher's position in the line: the code point before it (for \<open>\b\<close>), the rest
  of the line, the offset, and the span of group 1 when the group has been closed.
\<close>

record mstate =
  ms_prev :: "nat option"
  ms_rest :: ustring
  ms_pos :: nat
  ms_grp :: "(nat \<times> nat) option"

definition advance :: "mstate \<Rightarrow> mstate" where
  "advance st =
     (case ms_rest st of
        [] \<Rightarrow> st
      | x # xs \<Rightarrow> st\<lparr>ms_prev := Some x, ms_rest := xs, ms_pos := Suc (ms_pos st)\<rparr>)"

definition word_before :: "unicode_db \<Rightarrow> mstate \<Rightarrow> bool" where
  "word_before U st = (case ms_prev st of None \<Rightarrow> False | Some c \<Rightarrow> is_word U c)"

definition word_after :: "unicode_db \<Rightarrow> mstate \<Rightarrow> bool" where
  "word_after U st = (case ms_rest st of [] \<Rightarrow> False | c # _ \<Rightarrow> is_word U c)"

text \<open>\<open>greedy U ic a hi (ms_rest st) st\<close>: the states after 0, 1, 2, ... code points of the atom \<open>a\<close>
  have been consumed from \<open>st\<close>, at most \<open>hi\<close> of them, the longest run first.\<close>

fun greedy :: "unicode_db \<Rightarrow> bool \<Rightarrow> atom \<Rightarrow> nat option \<Rightarrow> ustring \<Rightarrow> mstate \<Rightarrow> mstate list" where
  "greedy U ic a hi [] st = [st]"
| "greedy U ic a hi (x # xs) st =
     (if hi \<noteq> Some 0 \<and> atom_match U ic a x
      then greedy U ic a (map_option (\<lambda>n. n - 1) hi) xs (advance st) @ [st]
      else [st])"

text \<open>
  \<open>rmatch U ic r st\<close> lists the states in which a match of \<open>r\<close> from \<open>st\<close> can end, in
  the order in which a backtracking matcher tries them: the left alternative before the
  right one, the longer repetition before the shorter one. The head of the list is the
  match that \<open>re\<close> reports.
\<close>

fun rmatch :: "unicode_db \<Rightarrow> bool \<Rightarrow> regex \<Rightarrow> mstate \<Rightarrow> mstate list" where
  "rmatch U ic Eps st = [st]"
| "rmatch U ic (Atom a) st =
     (case ms_rest st of
        [] \<Rightarrow> []
      | x # _ \<Rightarrow> if atom_match U ic a x then [advance st] else [])"
| "rmatch U ic (Many lo hi a) st =
     filter (\<lambda>st'. ms_pos st + lo \<le> ms_pos st') (greedy U ic a hi (ms_rest st) st)"
| "rmatch U ic (Opt r) st = rmatch U ic r st @ [st]"
| "rmatch U ic (Seq r1 r2) st = concat (map (rmatch U ic r2) (rmatch U ic r1 st))"
| "rmatch U ic (Alt r1 r2) st = rmatch U ic r1 st @ rmatch U ic r2 st"
| "rmatch U ic (Group r) st =
     map (\<lambda>st'. st'\<lparr>ms_grp := Some (ms_pos st, ms_pos st')\<rparr>) (rmatch U ic r st)"
| "rmatch U ic Bol st = (if ms_pos st = 0 then [st] else [])"
| "rmatch U ic Eol st = (if ms_rest st = [] \<or> ms_rest st = [10] then [st] else [])"
| "rmatch U ic WordB st = (if word_before U st \<noteq> word_after U st then [st] else [])"

section \<open>Compiled patterns, match objects and \<open>finditer\<close>\<close>

record pattern =
  p_regex :: regex
  p_ignorecase :: bool

definition re_compile :: "regex \<Rightarrow> pattern" where
  "re_compile r = \<lparr>p_regex = r, p_ignorecase = False\<rparr>"

definition re_compile_ignorecase :: "regex \<Rightarrow> pattern" where
  "re_compile_ignorecase r = \<lparr>p_regex = r, p_ignorecase = True\<rparr>"

text \<open>A match object: the span of the whole match (group 0) and the span of group 1
  when that group took part in the match.\<close>

record match =
  m_span :: "nat \<times> nat"
  m_group1 :: "(nat \<times> nat) option"

text \<open>\<open>m.lastindex\<close> is the index of the last group that matched, \<open>None\<close> when no
  group did; the patterns here have at most the group 1.\<close>

definition lastindex :: "match \<Rightarrow> nat option" where
  "lastindex m = (case m_group1 m of None \<Rightarrow> None | Some _ \<Rightarrow> Some 1)"

definition truthy :: "nat option \<Rightarrow> bool" where
  "truthy v = (case v of None \<Rightarrow> False | Some n \<Rightarrow> n \<noteq> 0)"

text \<open>\<open>m.start(i)\<close> and \<open>m.end(i)\<close> for \<open>i = 0\<close> and \<open>i = 1\<close>; for a group that did
  not take part in the match Python returns -1.\<close>

definition m_start :: "match \<Rightarrow> nat \<Rightarrow> int" where
  "m_start m i =
     (if i = 0 then int (fst (m_span m))
      else case m_group1 m of None \<Rightarrow> - 1 | Some (s, e) \<Rightarrow> int s)"

definition m_end :: "match \<Rightarrow> nat \<Rightarrow> int" where
  "m_end m i =
     (if i = 0 then int (snd (m_span m))
      else case m_group1 m of None \<Rightarrow> - 1 | Some (s, e) \<Rightarrow> int e)"

text \<open>One attempt of the pattern at one offset. With \<open>must_advance\<close> an empty match
  is refused and the matcher backtracks to the next way of matching.\<close>

definition match_at :: "unicode_db \<Rightarrow> pattern \<Rightarrow> bool \<Rightarrow> nat option \<Rightarrow> ustring \<Rightarrow> nat \<Rightarrow> match option" where
  "match_at U p must_advance prev rest pos =
     (case filter (\<lambda>st. \<not> (must_advance \<and> ms_pos st = pos))
             (rmatch U (p_ignorecase p) (p_regex p)
                \<lparr>ms_prev = prev, ms_rest = rest, ms_pos = pos, ms_grp = None\<rparr>) of
        [] \<Rightarrow> None
      | st # _ \<Rightarrow> Some \<lparr>m_span = (pos, ms_pos st), m_group1 = ms_grp st\<rparr>)"

text \<open>
  \<open>pattern.finditer(line)\<close>: the matches from left to right, none overlapping the one
  before. The scan walks the offsets of the line; \<open>nxt\<close> is the offset at which the last
  match ended, and offsets before it are skipped. After an empty match the same offset
  is tried once more for a match that is not empty, as the scanner of \<open>re\<close> does.
\<close>

fun scan :: "unicode_db \<Rightarrow> pattern \<Rightarrow> nat \<Rightarrow> nat option \<Rightarrow> ustring \<Rightarrow> nat \<Rightarrow> match list" where
  "scan U p nxt prev [] pos =
     (if pos < nxt then []
      else case match_at U p False prev [] pos of None \<Rightarrow> [] | Some m \<Rightarrow> [m])"
| "scan U p nxt prev (x # xs) pos =
     (if pos < nxt then scan U p nxt (Some x) xs (Suc pos)
      else case match_at U p False prev (x # xs) pos of
        None \<Rightarrow> scan U p nxt (Some x) xs (Suc pos)
      | Some m \<Rightarrow>
          if snd (m_span m) = pos
          then (case match_at U p True prev (x # xs) pos of
                  None \<Rightarrow> m # scan U p pos (Some x) xs (Suc pos)
                | Some m' \<Rightarrow> m # m' # scan U p (snd (m_span m')) (Some x) xs (Suc pos))
          else m # scan U p (snd (m_span m)) (Some x) xs (Suc pos))"

definition finditer :: "unicode_db \<Rightarrow> pattern \<Rightarrow> ustring \<Rightarrow> match list" where
  "finditer U p line = scan U p 0 None line 0"

section \<open>The highlighter\<close>

datatype rgb = RGBColor nat nat nat

definition CLR_DEFAULT :: rgb where "CLR_DEFAULT = RGBColor 0x1E 0x1E 0x1E"
definition CLR_IP :: rgb where "CLR_IP = RGBColor 0x00 0x6B 0xB3"
definition CLR_MAC :: rgb where "CLR_MAC = RGBColor 0xBF 0x63 0x00"
definition CLR_GREEN :: rgb where "CLR_GREEN = RGBColor 0x00 0x6B 0x44"
definition CLR_RED :: rgb where "CLR_RED = RGBColor 0xCC 0x20 0x00"
definition CLR_PROMPT :: rgb where "CLR_PROMPT = RGBColor 0x00 0x80 0x5A"
definition CLR_IFACE :: rgb where "CLR_IFACE = RGBColor 0xAA 0x55 0x00"
definition CLR_KEYWORD :: rgb where "CLR_KEYWORD = RGBColor 0x00 0x52 0xCC"
definition CLR_VNI :: rgb where "CLR_VNI = RGBColor 0x6C 0x3F 0xB5"
definition CLR_COMMENT :: rgb where "CLR_COMMENT = RGBColor 0x6B 0x77 0x8C"

text \<open>The class items and atoms the patterns are written with.\<close>

definition digit :: atom where "digit = In [ClsD]"
definition space :: atom where "space = In [ClsS]"
definition hexdigit :: atom where
  "hexdigit = In [rng CHR ''0'' CHR ''9'', rng CHR ''a'' CHR ''f'', rng CHR ''A'' CHR ''F'']"
definition iface_tail :: atom where
  "iface_tail = In [ClsW, chr CHR ''/'', chr CHR ''.'', chr CHR ''-'']"

text \<open>\<open>^(\s*#.*)$\<close>\<close>
definition re_comment :: regex where
  "re_comment =
     cat [Bol, Group (cat [Many 0 None space, lit CHR ''#'', Many 0 None AnyChar]), Eol]"

text \<open>\<open>((?:sw\d+#|cumulus[@$][\w:~]*[$#>]?|admin@[\w\-]+[-cli>]*>?)\s?)\<close>\<close>
definition re_prompt :: regex where
  "re_prompt =
     Group (cat [
       alt [cat [str ''sw'', Many 1 None digit, lit CHR ''#''],
            cat [str ''cumulus'', Atom (In [chr CHR ''@'', chr CHR ''$'']),
                 Many 0 None (In [ClsW, chr CHR '':'', chr CHR ''~'']),
                 Many 0 (Some 1) (In [chr CHR ''$'', chr CHR ''#'', chr CHR ''>''])],
            cat [str ''admin@'', Many 1 None (In [ClsW, chr CHR ''-'']),
                 Many 0 None (In [chr CHR ''-'', chr CHR ''c'', chr CHR ''l'', chr CHR ''i'',
                                  chr CHR ''>'']),
                 Many 0 (Some 1) (Lit (of_char CHR ''>''))]],
       Many 0 (Some 1) space])"

text \<open>\<open>\b(\d{1,3}\.\d{1,3}\.\d{1,3}\.\d{1,3}(?:/\d{1,2})?)\b\<close>\<close>
definition re_ip :: regex where
  "re_ip =
     cat [WordB,
          Group (cat [Many 1 (Some 3) digit, lit CHR ''.'', Many 1 (Some 3) digit, lit CHR ''.'',
                      Many 1 (Some 3) digit, lit CHR ''.'', Many 1 (Some 3) digit,
                      Opt (cat [lit CHR ''/'', Many 1 (Some 2) digit])]),
          WordB]"

text \<open>\<open>\b([0-9a-fA-F]{2}(?::[0-9a-fA-F]{2}){5})\b\<close>\<close>
definition re_mac_colon :: regex where
  "re_mac_colon =
     cat [WordB,
          Group (cat [Many 2 (Some 2) hexdigit,
                      times 5 (cat [lit CHR '':'', Many 2 (Some 2) hexdigit])]),
          WordB]"

text \<open>\<open>\b([0-9a-fA-F]{4}\.[0-9a-fA-F]{4}\.[0-9a-fA-F]{4})\b\<close>\<close>
definition re_mac_dot :: regex where
  "re_mac_dot =
     cat [WordB,
          Group (cat [Many 4 (Some 4) hexdigit, lit CHR ''.'', Many 4 (Some 4) hexdigit,
                      lit CHR ''.'', Many 4 (Some 4) hexdigit]),
          WordB]"

text \<open>\<open>\b(UP|FULL|Established|estab|FIXED|forwarding)\b\<close>, compiled with
  \<open>re.IGNORECASE\<close>\<close>
definition re_status_pos :: regex where
  "re_status_pos =
     cat [WordB,
          Group (alt [str ''UP'', str ''FULL'', str ''Established'', str ''estab'',
                      str ''FIXED'', str ''forwarding'']),
          WordB]"

text \<open>\<open>\b(DOWN|FAIL|ERROR|DROPPED|failed|blocked)\b\<close>, compiled with \<open>re.IGNORECASE\<close>\<close>
definition re_status_neg :: regex where
  "re_status_neg =
     cat [WordB,
          Group (alt [str ''DOWN'', str ''FAIL'', str ''ERROR'', str ''DROPPED'',
                      str ''failed'', str ''blocked'']),
          WordB]"

text \<open>\<open>\b(401151|401152|401153|50101)\b\<close>\<close>
definition re_vni :: regex where
  "re_vni =
     cat [WordB, Group (alt [str ''401151'', str ''401152'', str ''401153'', str ''50101'']),
          WordB]"

text \<open>\<open>\b((?:Gi(?:gabitEthernet)?|GigabitEthernet|Te|nve|Loopback|Vlan|swp|vxlan|br_default|vlan)\d[\w/.\-]*)\b\<close>\<close>
definition re_iface :: regex where
  "re_iface =
     cat [WordB,
          Group (cat [
            alt [Seq (str ''Gi'') (Opt (str ''gabitEthernet'')), str ''GigabitEthernet'',
                 str ''Te'', str ''nve'', str ''Loopback'', str ''Vlan'', str ''swp'',
                 str ''vxlan'', str ''br_default'', str ''vlan''],
            Atom digit, Many 0 None iface_tail]),
          WordB]"

text \<open>\<open>\b((?:tvi|vni|dtvi)-\d[\w/.\-]*)\b\<close>\<close>
definition re_versa_iface :: regex where
  "re_versa_iface =
     cat [WordB,
          Group (cat [alt [str ''tvi'', str ''vni'', str ''dtvi''], lit CHR ''-'',
                      Atom digit, Many 0 None iface_tail]),
          WordB]"

text \<open>\<open>^\s*(router\s+(?:ospf|bgp)|interface|neighbor|address-family|l2vpn|vlan\s+configuration|member|nv\s+set)\b\<close>\<close>
definition re_keyword :: regex where
  "re_keyword =
     cat [Bol, Many 0 None space,
          Group (alt [
            cat [str ''router'', Many 1 None space, alt [str ''ospf'', str ''bgp'']],
            str ''interface'', str ''neighbor'', str ''address-family'', str ''l2vpn'',
            cat [str ''vlan'', Many 1 None space, str ''configuration''],
            str ''member'',
            cat [str ''nv'', Many 1 None space, str ''set'']]),
          WordB]"

text \<open>\<open>^\s*(set\s+routing-instances|protocols|bridge-domains|bridge-options|policy-options)\b\<close>\<close>
definition re_versa_keyword :: regex where
  "re_versa_keyword =
     cat [Bol, Many 0 None space,
          Group (alt [
            cat [str ''set'', Many 1 None space, str ''routing-instances''],
            str ''protocols'', str ''bridge-domains'', str ''bridge-options'',
            str ''policy-options'']),
          WordB]"

definition SH_PATTERNS :: "(pattern \<times> rgb \<times> bool) list" where
  "SH_PATTERNS =
     [(re_compile re_comment, CLR_COMMENT, False),
      (re_compile re_prompt, CLR_PROMPT, True),
      (re_compile re_ip, CLR_IP, False),
      (re_compile re_mac_colon, CLR_MAC, False),
      (re_compile re_mac_dot, CLR_MAC, False),
      (re_compile_ignorecase re_status_pos, CLR_GREEN, True),
      (re_compile_ignorecase re_status_neg, CLR_RED, True),
      (re_compile re_vni, CLR_VNI, False),
      (re_compile re_iface, CLR_IFACE, False),
      (re_compile re_versa_iface, CLR_IFACE, False),
      (re_compile re_keyword, CLR_KEYWORD, True),
      (re_compile re_versa_keyword, CLR_KEYWORD, True)]"

type_synonym candidate = "int \<times> int \<times> rgb \<times> bool"
type_synonym segment = "ustring \<times> rgb \<times> bool"

text \<open>The body of the inner loop: the span appended to \<open>matches\<close> for one match. (The
  loop also binds \<open>g\<close> to the matched text, which is never read.)\<close>

definition span_of :: "match \<Rightarrow> int \<times> int" where
  "span_of m =
     (let s = (if truthy (lastindex m) then m_start m 1 else m_start m 0);
          e = (if truthy (lastindex m) then m_end m 1 else m_end m 0)
      in (s, e))"

definition collect_matches :: "unicode_db \<Rightarrow> (pattern \<times> rgb \<times> bool) list \<Rightarrow> ustring \<Rightarrow> candidate list" where
  "collect_matches U pats line =
     concat (map (\<lambda>(p, color, bold).
                    map (\<lambda>m. (fst (span_of m), snd (span_of m), color, bold)) (finditer U p line))
                 pats)"

text \<open>\<open>matches.sort(key=lambda x: x[0])\<close>: a stable sort on the start offset.\<close>

definition sort_matches :: "candidate list \<Rightarrow> candidate list" where
  "sort_matches ms = sort_key fst ms"

fun remove_overlaps :: "int \<Rightarrow> candidate list \<Rightarrow> candidate list" where
  "remove_overlaps last_end [] = []"
| "remove_overlaps last_end ((s, e, color, bold) # ms) =
     (if s \<ge> last_end then (s, e, color, bold) # remove_overlaps e ms
      else remove_overlaps last_end ms)"

fun build_segments :: "ustring \<Rightarrow> int \<Rightarrow> candidate list \<Rightarrow> segment list" where
  "build_segments line pos [] =
     (if pos < int (length line) then [(slice_from line pos, CLR_DEFAULT, False)] else [])"
| "build_segments line pos ((s, e, color, bold) # fs) =
     (if s > pos then [(slice line pos s, CLR_DEFAULT, False)] else [])
     @ (slice line s e, color, bold) # build_segments line e fs"

definition is_comment_line :: "unicode_db \<Rightarrow> ustring \<Rightarrow> bool" where
  "is_comment_line U line =
     (startswith (strip U line) (ustr ''#'') \<or> startswith (strip U line) (ustr ''!''))"

definition colorize_with :: "unicode_db \<Rightarrow> (pattern \<times> rgb \<times> bool) list \<Rightarrow> ustring \<Rightarrow> segment list" where
  "colorize_with U pats line =
     (if is_comment_line U line then [(line, CLR_COMMENT, False)]
      else
        let matches = sort_matches (collect_matches U pats line);
            filtered = remove_overlaps 0 matches;
            segments = build_segments line 0 filtered
        in if segments = [] then [(line, CLR_DEFAULT, False)] else segments)"

definition colorize_line :: "unicode_db \<Rightarrow> ustring \<Rightarrow> segment list" where
  "colorize_line U line = colorize_with U SH_PATTERNS line"

text \<open>
  The same function with what can go wrong written out. \<open>colorize_line\<close> has no
  \<open>raise\<close>; of the operations it calls, \<open>strip\<close>, \<open>startswith\<close>, \<open>finditer\<close>,
  \<open>sort\<close> and slicing accept every string and every offset, and only the accessors of
  a match object can raise: \<open>m.group(i)\<close>, \<open>m.start(i)\<close> and \<open>m.end(i)\<close> raise
  \<open>IndexError\<close> when the pattern has no group \<open>i\<close>. \<open>groups\<close> is the number of
  capturing groups of a pattern (\<open>pattern.groups\<close>).
\<close>

fun groups :: "regex \<Rightarrow> nat" where
  "groups (Group r) = Suc (groups r)"
| "groups (Opt r) = groups r"
| "groups (Seq r1 r2) = groups r1 + groups r2"
| "groups (Alt r1 r2) = groups r1 + groups r2"
| "groups r = 0"

definition m_group_or_raise :: "pattern \<Rightarrow> ustring \<Rightarrow> match \<Rightarrow> nat \<Rightarrow> py_exception + ustring option" where
  "m_group_or_raise p line m i =
     (if i > groups (p_regex p) then Inl IndexError
      else if i = 0 then Inr (Some (slice line (int (fst (m_span m))) (int (snd (m_span m)))))
      else Inr (map_option (\<lambda>(s, e). slice line (int s) (int e)) (m_group1 m)))"

definition m_start_or_raise :: "pattern \<Rightarrow> match \<Rightarrow> nat \<Rightarrow> py_exception + int" where
  "m_start_or_raise p m i = (if i > groups (p_regex p) then Inl IndexError else Inr (m_start m i))"

definition m_end_or_raise :: "pattern \<Rightarrow> match \<Rightarrow> nat \<Rightarrow> py_exception + int" where
  "m_end_or_raise p m i = (if i > groups (p_regex p) then Inl IndexError else Inr (m_end m i))"

text \<open>The three statements of the inner loop before the \<open>append\<close>.\<close>

definition span_or_raise :: "pattern \<Rightarrow> ustring \<Rightarrow> match \<Rightarrow> py_exception + int \<times> int" where
  "span_or_raise p line m =
     (case (if truthy (lastindex m) then m_group_or_raise p line m 1
            else m_group_or_raise p line m 0) of
        Inl ex \<Rightarrow> Inl ex
      | Inr g \<Rightarrow>
     (case (if truthy (lastindex m) then m_start_or_raise p m 1 else m_start_or_raise p m 0) of
        Inl ex \<Rightarrow> Inl ex
      | Inr s \<Rightarrow>
     (case (if truthy (lastindex m) then m_end_or_raise p m 1 else m_end_or_raise p m 0) of
        Inl ex \<Rightarrow> Inl ex
      | Inr e \<Rightarrow> Inr (s, e))))"

text \<open>The inner loop over the matches of one pattern and the outer loop over the
  patterns; \<open>matches\<close> is the list built so far.\<close>

fun append_spans ::
  "pattern \<Rightarrow> rgb \<Rightarrow> bool \<Rightarrow> ustring \<Rightarrow> match list \<Rightarrow> candidate list
     \<Rightarrow> py_exception + candidate list" where
  "append_spans p color bold line [] matches = Inr matches"
| "append_spans p color bold line (m # ms) matches =
     (case span_or_raise p line m of
        Inl ex \<Rightarrow> Inl ex
      | Inr (s, e) \<Rightarrow> append_spans p color bold line ms (matches @ [(s, e, color, bold)]))"

fun collect_or_raise ::
  "unicode_db \<Rightarrow> (pattern \<times> rgb \<times> bool) list \<Rightarrow> ustring \<Rightarrow> candidate list
     \<Rightarrow> py_exception + candidate list" where
  "collect_or_raise U [] line matches = Inr matches"
| "collect_or_raise U ((p, color, bold) # pats) line matches =
     (case append_spans p color bold line (finditer U p line) matches of
        Inl ex \<Rightarrow> Inl ex
      | Inr matches' \<Rightarrow> collect_or_raise U pats line matches')"

definition colorize_or_raise ::
  "unicode_db \<Rightarrow> (pattern \<times> rgb \<times> bool) list \<Rightarrow> ustring \<Rightarrow> py_exception + segment list" where
  "colorize_or_raise U pats line =
     (if is_comment_line U line then Inr [(line, CLR_COMMENT, False)]
      else
        case collect_or_raise U pats line [] of
          Inl ex \<Rightarrow> Inl ex
        | Inr collected \<Rightarrow>
            let matches = sort_matches collected;
                filtered = remove_overlaps 0 matches;
                segments = build_segments line 0 filtered
            in Inr (if segments = [] then [(line, CLR_DEFAULT, False)] else segments))"

text \<open>
  \<open>add_colored_runs\<close> hands the segments to python-docx, one run per segment. That
  library is not part of the repository: what \<open>paragraph.add_run\<close> and the assignments
  to the attributes of a run do to the document \<open>'d\<close> is a parameter. Each operation
  returns the exception it raised, if any, and the document after it.
\<close>

record ('d, 'p, 'r, 'sz) docx =
  add_run :: "'p \<Rightarrow> ustring \<Rightarrow> 'd \<Rightarrow> (py_exception + 'r) \<times> 'd"
  set_font_name :: "'r \<Rightarrow> string \<Rightarrow> 'd \<Rightarrow> py_exception option \<times> 'd"
  set_font_size :: "'r \<Rightarrow> 'sz \<Rightarrow> 'd \<Rightarrow> py_exception option \<times> 'd"
  set_font_color :: "'r \<Rightarrow> rgb \<Rightarrow> 'd \<Rightarrow> py_exception option \<times> 'd"
  set_bold :: "'r \<Rightarrow> bool \<Rightarrow> 'd \<Rightarrow> py_exception option \<times> 'd"

definition NBSP :: nat where
  "NBSP = 0xA0"

definition display_line :: "unicode_db \<Rightarrow> ustring \<Rightarrow> ustring" where
  "display_line U line = (if strip U line \<noteq> [] then line else [NBSP])"

text \<open>The body of the loop for one segment: the run is added, then its attributes
  are set.\<close>

definition add_one_run ::
  "('d, 'p, 'r, 'sz) docx \<Rightarrow> 'p \<Rightarrow> string \<Rightarrow> 'sz \<Rightarrow> segment \<Rightarrow> 'd
     \<Rightarrow> py_exception option \<times> 'd" where
  "add_one_run api paragraph font_name font_size seg d =
     (case seg of (text, color, bold) \<Rightarrow>
     (case add_run api paragraph text d of
        (Inl e, d1) \<Rightarrow> (Some e, d1)
      | (Inr run, d1) \<Rightarrow>
     (case set_font_name api run font_name d1 of
        (Some e, d2) \<Rightarrow> (Some e, d2)
      | (None, d2) \<Rightarrow>
     (case set_font_size api run font_size d2 of
        (Some e, d3) \<Rightarrow> (Some e, d3)
      | (None, d3) \<Rightarrow>
     (case set_font_color api run color d3 of
        (Some e, d4) \<Rightarrow> (Some e, d4)
      | (None, d4) \<Rightarrow>
          if bold then set_bold api run True d4 else (None, d4))))))"

text \<open>The loop over the segments. The result is the exception that ended it, if any,
  the texts \<open>paragraph.add_run\<close> was called with, in order, and the document.\<close>

fun add_runs ::
  "('d, 'p, 'r, 'sz) docx \<Rightarrow> 'p \<Rightarrow> string \<Rightarrow> 'sz \<Rightarrow> segment list \<Rightarrow> 'd
     \<Rightarrow> py_exception option \<times> ustring list \<times> 'd" where
  "add_runs api paragraph font_name font_size [] d = (None, [], d)"
| "add_runs api paragraph font_name font_size (seg # segments) d =
     (case add_one_run api paragraph font_name font_size seg d of
        (Some e, d1) \<Rightarrow> (Some e, [fst seg], d1)
      | (None, d1) \<Rightarrow>
          (case add_runs api paragraph font_name font_size segments d1 of
             (ex, texts, d') \<Rightarrow> (ex, fst seg # texts, d')))"

definition add_colored_runs ::
  "('d, 'p, 'r, 'sz) docx \<Rightarrow> unicode_db \<Rightarrow> 'p \<Rightarrow> ustring \<Rightarrow> string \<Rightarrow> 'sz \<Rightarrow> 'd
     \<Rightarrow> py_exception option \<times> ustring list \<times> 'd" where
  "add_colored_runs api U paragraph line font_name font_size d =
     (let segments = colorize_line U (display_line U line)
      in add_runs api paragraph font_name font_size segments d)"

text \<open>A document for the examples: the list of the texts of its runs. Adding a run
  fails on a control character that XML cannot hold; the attributes are not kept.\<close>

definition xml_safe :: "nat \<Rightarrow> bool" where
  "xml_safe c = (32 \<le> c \<or> c = 9 \<or> c = 10 \<or> c = 13)"

definition list_docx :: "(ustring list, unit, nat, nat) docx" where
  "list_docx =
     \<lparr>add_run = (\<lambda>p t d. if list_all xml_safe t then (Inr (length d), d @ [t])
                          else (Inl (OtherException ''ValueError''), d)),
      set_font_name = (\<lambda>r n d. (None, d)),
      set_font_size = (\<lambda>r z d. (None, d)),
      set_font_color = (\<lambda>r c d. (None, d)),
      set_bold = (\<lambda>r b d. (None, d))\<rparr>"

text \<open>
  The offsets at which \<open>colorize_line\<close> cuts the line: the same loop as
  \<open>build_segments\<close>, keeping the two offsets of each slice instead of the slice.
\<close>

fun build_spans :: "nat \<Rightarrow> int \<Rightarrow> candidate list \<Rightarrow> (int \<times> int) list" where
  "build_spans n pos [] = (if pos < int n then [(pos, int n)] else [])"
| "build_spans n pos ((s, e, color, bold) # fs) =
     (if s > pos then [(pos, s)] else []) @ (s, e) # build_spans n e fs"

definition segment_spans :: "unicode_db \<Rightarrow> ustring \<Rightarrow> (int \<times> int) list" where
  "segment_spans U line =
     (if is_comment_line U line then [(0, int (length line))]
      else
        let matches = sort_matches (collect_matches U SH_PATTERNS line);
            filtered = remove_overlaps 0 matches;
            spans = build_spans (length line) 0 filtered
        in if spans = [] then [(0, int (length line))] else spans)"

text \<open>\<open>contiguous a sp b\<close>: the spans \<open>sp\<close> follow each other from offset \<open>a\<close> to offset
  \<open>b\<close>, each starting where the one before ends.\<close>

fun contiguous :: "int \<Rightarrow> (int \<times> int) list \<Rightarrow> int \<Rightarrow> bool" where
  "contiguous a [] b = (a = b)"
| "contiguous a ((s, e) # sp) b = (s = a \<and> contiguous e sp b)"

text \<open>The least number of code points a match of a pattern consumes, and the patterns
  whose group 1 cannot be empty.\<close>

fun minlen :: "regex \<Rightarrow> nat" where
  "minlen Eps = 0"
| "minlen (Atom a) = 1"
| "minlen (Many lo hi a) = lo"
| "minlen (Opt r) = 0"
| "minlen (Seq r1 r2) = minlen r1 + minlen r2"
| "minlen (Alt r1 r2) = min (minlen r1) (minlen r2)"
| "minlen (Group r) = minlen r"
| "minlen Bol = 0"
| "minlen Eol = 0"
| "minlen WordB = 0"

fun groups_nonempty :: "regex \<Rightarrow> bool" where
  "groups_nonempty (Opt r) = groups_nonempty r"
| "groups_nonempty (Seq r1 r2) = (groups_nonempty r1 \<and> groups_nonempty r2)"
| "groups_nonempty (Alt r1 r2) = (groups_nonempty r1 \<and> groups_nonempty r2)"
| "groups_nonempty (Group r) = (0 < minlen r \<and> groups_nonempty r)"
| "groups_nonempty r = True"

text \<open>\<open>match_within r lo hi m\<close>: the match \<open>m\<close> of \<open>r\<close> lies between the offsets \<open>lo\<close>
  and \<open>hi\<close> and its group 1 lies inside it. \<open>span_ok n strict c\<close>: the candidate span
  \<open>c\<close> lies inside a line of \<open>n\<close> code points (and is not empty, with \<open>strict\<close>).
  \<open>never_empty pats\<close>: no pattern of the list can record an empty span.\<close>

definition match_within :: "regex \<Rightarrow> nat \<Rightarrow> nat \<Rightarrow> match \<Rightarrow> bool" where
  "match_within r lo hi m =
     (lo \<le> fst (m_span m) \<and> fst (m_span m) + minlen r \<le> snd (m_span m) \<and> snd (m_span m) \<le> hi
      \<and> (case m_group1 m of
            None \<Rightarrow> True
          | Some (gs, ge) \<Rightarrow> fst (m_span m) \<le> gs \<and> gs \<le> ge \<and> ge \<le> snd (m_span m)
              \<and> (groups_nonempty r \<longrightarrow> gs < ge)))"

fun span_ok :: "nat \<Rightarrow> bool \<Rightarrow> candidate \<Rightarrow> bool" where
  "span_ok n strict (s, e, color, bold) = (0 \<le> s \<and> s \<le> e \<and> e \<le> int n \<and> (strict \<longrightarrow> s < e))"

definition never_empty :: "(pattern \<times> rgb \<times> bool) list \<Rightarrow> bool" where
  "never_empty pats =
     list_all (\<lambda>(p, color, bold). 0 < minlen (p_regex p) \<and> groups_nonempty (p_regex p)) pats"

text \<open>The value of \<open>last_end\<close> in the overlap scan once the spans \<open>kept\<close> have been
  appended to \<open>filtered\<close>: the end of the last of them, 0 before the first.\<close>

definition kept_end :: "candidate list \<Rightarrow> int" where
  "kept_end kept = (if kept = [] then 0 else fst (snd (last kept)))"


definition same_letter :: "nat \<Rightarrow> nat \<Rightarrow> bool" where
  "same_letter x y = (x = y \<or> (x < 128 \<and> y < 128 \<and> ascii_lower x = ascii_lower y))"


definition same_state :: "mstate \<Rightarrow> mstate \<Rightarrow> bool" where
  "same_state st st' =
     (ms_pos st = ms_pos st' \<and> ms_grp st = ms_grp st'
      \<and> list_all2 same_letter (ms_rest st) (ms_rest st')
      \<and> rel_option same_letter (ms_prev st) (ms_prev st'))"







text \<open>The literals of the pattern \<open>re_vni\<close>.\<close>

definition vni_allow_list :: "string list" where
  "vni_allow_list = [''401151'', ''401152'', ''401153'', ''50101'']"

text \<open>A character database that knows nothing beyond ASCII, for the examples.\<close>

definition ascii_db :: unicode_db where
  "ascii_db =
     \<lparr>uni_space = (\<lambda>c. False), uni_decimal = (\<lambda>c. False), uni_alnum = (\<lambda>c. False),
      uni_ci_eq = (\<lambda>c x. False), uni_ci_range = (\<lambda>lo hi x. False)\<rparr>"

section \<open>Saving the document\<close>

text \<open>
  The end of the script: the loop over the candidate suffixes around \<open>doc.save\<close>, then
  the two \<open>print\<close> calls. \<open>doc.save\<close> and \<open>os.path.getsize\<close> act on the file system,
  which is a state \<open>'w\<close> passed along; \<open>doc.save\<close> returns the exception it raised, if
  any. Next to the result the loop returns the paths \<open>doc.save\<close> was called with.
\<close>

type_synonym 'w save_fn = "ustring \<Rightarrow> 'w \<Rightarrow> py_exception option \<times> 'w"
type_synonym 'w getsize_fn = "ustring \<Rightarrow> 'w \<Rightarrow> py_exception + nat"

definition candidate_suffixes :: "string list" where
  "candidate_suffixes = [''_v3'', ''_v3a'', ''_v3b'']"

definition path_of :: "ustring \<Rightarrow> string \<Rightarrow> ustring" where
  "path_of base_name sfx = base_name @ ustr sfx @ ustr ''.docx''"

text \<open>\<open>save_loop save base_name todo output_path w\<close>: the iterations for the suffixes
  \<open>todo\<close> still to come; \<open>output_path\<close> is the variable of that name, \<open>None\<close> while it
  is unbound. \<open>Inl e\<close>: the exception \<open>e\<close> left the loop.\<close>

fun save_loop ::
  "'w save_fn \<Rightarrow> ustring \<Rightarrow> string list \<Rightarrow> ustring option \<Rightarrow> 'w
     \<Rightarrow> (py_exception + ustring option) \<times> ustring list \<times> 'w" where
  "save_loop save base_name [] output_path w = (Inr output_path, [], w)"
| "save_loop save base_name (sfx # rest) output_path w =
     (let path = path_of base_name sfx in
      case save path w of
        (None, w') \<Rightarrow> (Inr (Some path), [path], w')
      | (Some e, w') \<Rightarrow>
          if e = PermissionError
          then (case save_loop save base_name rest (Some path) w' of
                  (res, tried, w'') \<Rightarrow> (res, path # tried, w''))
          else (Inl e, [path], w'))"

text \<open>What \<open>print\<close> wrote: \<open>Saved_line p\<close> is the line \<open>Word document saved: p\<close>,
  \<open>Size_line n\<close> the line \<open>Size: n bytes\<close>.\<close>

datatype printed = Saved_line ustring | Size_line nat

text \<open>\<open>save_and_report\<close>: the loop and the two prints. The result is the exception
  that ended the script, if any, the lines printed, the paths tried and the final file
  system.\<close>

definition save_and_report ::
  "'w save_fn \<Rightarrow> 'w getsize_fn \<Rightarrow> ustring \<Rightarrow> 'w
     \<Rightarrow> py_exception option \<times> printed list \<times> ustring list \<times> 'w" where
  "save_and_report save getsize base_name w =
     (case save_loop save base_name candidate_suffixes None w of
        (Inl e, tried, w') \<Rightarrow> (Some e, [], tried, w')
      | (Inr None, tried, w') \<Rightarrow> (Some NameError, [], tried, w')
      | (Inr (Some output_path), tried, w') \<Rightarrow>
          (case getsize output_path w' of
             Inl e \<Rightarrow> (Some e, [Saved_line output_path], tried, w')
           | Inr n \<Rightarrow> (None, [Saved_line output_path, Size_line n], tried, w')))"

text \<open>Three file systems for the examples, each the list of the paths written so far:
  one in which the first candidate is locked, one in which \<open>doc.save\<close> meets a full
  disk, one in which every candidate is locked.\<close>

definition example_base :: ustring where
  "example_base = ustr ''Versa-Cisco-EVPN-VXLAN-Integration''"

definition first_locked :: "ustring list save_fn" where
  "first_locked path w =
     (if path = path_of example_base ''_v3'' then (Some PermissionError, w)
      else (None, w @ [path]))"

definition disk_full :: "ustring list save_fn" where
  "disk_full path w = (Some (OtherException ''OSError''), w)"

definition all_locked :: "ustring list save_fn" where
  "all_locked path w = (Some PermissionError, w)"

definition size_of_written :: "ustring list getsize_fn" where
  "size_of_written path w =
     (if path \<in> set w then Inr 36864 else Inl (OtherException ''FileNotFoundError''))"

section \<open>Evaluation rules\<close>

lemma ustr_simps: "ustr [] = []" "ustr (c # cs) = of_char c # ustr cs"
  by (simp_all add: ustr_def)

section \<open>Matches lie inside the line\<close>

text \<open>Every state the matcher reaches is further right in the same line, and a group
  it has closed lies between the start and the end of the match.\<close>

lemma advance_Cons:
  "ms_rest st = x # xs \<Longrightarrow>
     ms_pos (advance st) = Suc (ms_pos st) \<and> ms_rest (advance st) = xs
     \<and> ms_grp (advance st) = ms_grp st"
  by (simp add: advance_def)

lemma greedy_reach:
  "st' \<in> set (greedy U ic a hi xs st) \<Longrightarrow> ms_rest st = xs \<Longrightarrow>
     ms_pos st \<le> ms_pos st' \<and> ms_pos st' + length (ms_rest st') = ms_pos st + length xs
     \<and> ms_grp st' = ms_grp st"
proof (induction xs arbitrary: st hi)
  case Nil
  then show ?case by simp
next
  case (Cons x xs)
  show ?case
  proof (cases "st' = st")
    case True
    with Cons.prems show ?thesis by simp
  next
    case False
    with Cons.prems(1)
    have in_tl: "st' \<in> set (greedy U ic a (map_option (\<lambda>n. n - 1) hi) xs (advance st))"
      by (auto split: if_splits)
    from Cons.prems(2) have adv: "ms_pos (advance st) = Suc (ms_pos st)"
      "ms_rest (advance st) = xs" "ms_grp (advance st) = ms_grp st"
      by (simp_all add: advance_Cons)
    from Cons.IH [OF in_tl adv(2)] adv show ?thesis by simp
  qed
qed

lemma rmatch_pos:
  "st' \<in> set (rmatch U ic r st) \<Longrightarrow>
     ms_pos st + minlen r \<le> ms_pos st'
     \<and> ms_pos st' + length (ms_rest st') = ms_pos st + length (ms_rest st)"
proof (induction r arbitrary: st st')
  case (Atom a)
  then show ?case
    by (cases "ms_rest st") (auto simp: advance_Cons split: if_splits)
next
  case (Many lo hi a)
  then show ?case using greedy_reach [of st' U ic a hi "ms_rest st" st] by auto
next
  case (Seq r1 r2)
  from Seq.prems obtain st'' where a: "st'' \<in> set (rmatch U ic r1 st)"
    and b: "st' \<in> set (rmatch U ic r2 st'')" by auto
  from Seq.IH(1) [OF a] Seq.IH(2) [OF b] show ?case by simp
next
  case (Opt r)
  from Opt.prems have "st' \<in> set (rmatch U ic r st) \<or> st' = st" by auto
  then show ?case using Opt.IH [of st' st] by auto
next
  case (Alt r1 r2)
  from Alt.prems have "st' \<in> set (rmatch U ic r1 st) \<or> st' \<in> set (rmatch U ic r2 st)" by auto
  then show ?case using Alt.IH(1) [of st' st] Alt.IH(2) [of st' st] by auto
next
  case (Group r)
  from Group.prems obtain st'' where a: "st'' \<in> set (rmatch U ic r st)"
    and b: "st' = st''\<lparr>ms_grp := Some (ms_pos st, ms_pos st'')\<rparr>" by auto
  from Group.IH [OF a] b show ?case by simp
qed (auto split: if_splits)

lemma rmatch_grp:
  "st' \<in> set (rmatch U ic r st) \<Longrightarrow>
     ms_grp st' = ms_grp st
     \<or> (\<exists>gs ge. ms_grp st' = Some (gs, ge) \<and> ms_pos st \<le> gs \<and> gs \<le> ge \<and> ge \<le> ms_pos st'
          \<and> (groups_nonempty r \<longrightarrow> gs < ge))"
proof (induction r arbitrary: st st')
  case (Atom a)
  then show ?case
    by (cases "ms_rest st") (auto simp: advance_Cons split: if_splits)
next
  case (Many lo hi a)
  then show ?case using greedy_reach [of st' U ic a hi "ms_rest st" st] by auto
next
  case (Opt r)
  from Opt.prems have "st' \<in> set (rmatch U ic r st) \<or> st' = st" by auto
  then show ?case using Opt.IH [of st' st] by auto
next
  case (Seq r1 r2)
  from Seq.prems obtain st'' where a: "st'' \<in> set (rmatch U ic r1 st)"
    and b: "st' \<in> set (rmatch U ic r2 st'')" by auto
  from rmatch_pos [OF a] rmatch_pos [OF b]
  have p: "ms_pos st \<le> ms_pos st''" "ms_pos st'' \<le> ms_pos st'" by simp_all
  from Seq.IH(2) [OF b] show ?case
  proof
    assume same: "ms_grp st' = ms_grp st''"
    from Seq.IH(1) [OF a] show ?thesis
    proof
      assume "ms_grp st'' = ms_grp st"
      with same show ?thesis by simp
    next
      assume "\<exists>gs ge. ms_grp st'' = Some (gs, ge) \<and> ms_pos st \<le> gs \<and> gs \<le> ge
                \<and> ge \<le> ms_pos st'' \<and> (groups_nonempty r1 \<longrightarrow> gs < ge)"
      then obtain gs ge where g: "ms_grp st'' = Some (gs, ge)" "ms_pos st \<le> gs" "gs \<le> ge"
        "ge \<le> ms_pos st''" "groups_nonempty r1 \<longrightarrow> gs < ge" by blast
      from g p same have "ms_grp st' = Some (gs, ge) \<and> ms_pos st \<le> gs \<and> gs \<le> ge
         \<and> ge \<le> ms_pos st' \<and> (groups_nonempty (Seq r1 r2) \<longrightarrow> gs < ge)" by simp
      then show ?thesis by blast
    qed
  next
    assume "\<exists>gs ge. ms_grp st' = Some (gs, ge) \<and> ms_pos st'' \<le> gs \<and> gs \<le> ge
              \<and> ge \<le> ms_pos st' \<and> (groups_nonempty r2 \<longrightarrow> gs < ge)"
    then obtain gs ge where g: "ms_grp st' = Some (gs, ge)" "ms_pos st'' \<le> gs" "gs \<le> ge"
      "ge \<le> ms_pos st'" "groups_nonempty r2 \<longrightarrow> gs < ge" by blast
    from g p have "ms_grp st' = Some (gs, ge) \<and> ms_pos st \<le> gs \<and> gs \<le> ge
       \<and> ge \<le> ms_pos st' \<and> (groups_nonempty (Seq r1 r2) \<longrightarrow> gs < ge)" by simp
    then show ?thesis by blast
  qed
next
  case (Alt r1 r2)
  from Alt.prems have "st' \<in> set (rmatch U ic r1 st) \<or> st' \<in> set (rmatch U ic r2 st)" by auto
  then show ?case using Alt.IH(1) [of st' st] Alt.IH(2) [of st' st] by auto
next
  case (Group r)
  from Group.prems obtain st'' where a: "st'' \<in> set (rmatch U ic r st)"
    and b: "st' = st''\<lparr>ms_grp := Some (ms_pos st, ms_pos st'')\<rparr>" by auto
  from rmatch_pos [OF a] b show ?case by auto
qed (auto split: if_splits)

lemma match_at_bounds:
  assumes "match_at U p adv prev rest pos = Some m"
  shows "fst (m_span m) = pos \<and> pos + minlen (p_regex p) \<le> snd (m_span m)
         \<and> snd (m_span m) \<le> pos + length rest
         \<and> (case m_group1 m of None \<Rightarrow> True
             | Some (gs, ge) \<Rightarrow> pos \<le> gs \<and> gs \<le> ge \<and> ge \<le> snd (m_span m)
                 \<and> (groups_nonempty (p_regex p) \<longrightarrow> gs < ge))"
proof -
  let ?st = "\<lparr>ms_prev = prev, ms_rest = rest, ms_pos = pos, ms_grp = None\<rparr>"
  from assms obtain st' sts where
    f: "filter (\<lambda>st. \<not> (adv \<and> ms_pos st = pos)) (rmatch U (p_ignorecase p) (p_regex p) ?st)
          = st' # sts"
    and m: "m = \<lparr>m_span = (pos, ms_pos st'), m_group1 = ms_grp st'\<rparr>"
    by (auto simp: match_at_def split: list.splits)
  from f have "st' \<in> set (filter (\<lambda>st. \<not> (adv \<and> ms_pos st = pos))
                    (rmatch U (p_ignorecase p) (p_regex p) ?st))" by simp
  then have mem: "st' \<in> set (rmatch U (p_ignorecase p) (p_regex p) ?st)" by simp
  from rmatch_pos [OF mem] rmatch_grp [OF mem] m show ?thesis
    by (auto split: option.splits)
qed

lemma match_at_within:
  assumes "match_at U p adv prev rest pos = Some m"
  shows "match_within (p_regex p) pos (pos + length rest) m"
  using match_at_bounds [OF assms] by (auto simp: match_within_def split: option.splits)

lemma match_within_mono:
  "match_within r lo hi m \<Longrightarrow> lo' \<le> lo \<Longrightarrow> hi \<le> hi' \<Longrightarrow> match_within r lo' hi' m"
  by (auto simp: match_within_def)

lemma scan_within:
  "m \<in> set (scan U p nxt prev rest pos) \<Longrightarrow> match_within (p_regex p) pos (pos + length rest) m"
proof (induction rest arbitrary: nxt prev pos)
  case Nil
  have here: "match_within (p_regex p) pos (pos + length ([]::ustring)) m"
    if "match_at U p adv prev [] pos = Some m" for adv
    using match_at_within [OF that] .
  from Nil show ?case
    by (auto split: if_splits option.splits dest: here [OF sym])
next
  case (Cons x xs)
  have step: "match_within (p_regex p) q (Suc (q + length xs)) m"
    if "m \<in> set (scan U p n' (Some x) xs (Suc q))" for n' q
    using Cons.IH [OF that] by (rule match_within_mono) simp_all
  have here: "match_within (p_regex p) q (Suc (q + length xs)) m'"
    if "match_at U p adv prev (x # xs) q = Some m'" for adv q m'
    using match_at_within [OF that] by simp
  from Cons.prems show ?case
    by (auto split: if_splits option.splits intro: step here)
qed

lemma finditer_within:
  "m \<in> set (finditer U p line) \<Longrightarrow> match_within (p_regex p) 0 (length line) m"
  using scan_within [of m U p 0 None line 0] by (simp add: finditer_def)

lemma span_of_cases:
  "span_of m =
     (case m_group1 m of
        None \<Rightarrow> (int (fst (m_span m)), int (snd (m_span m)))
      | Some (gs, ge) \<Rightarrow> (int gs, int ge))"
  by (simp add: span_of_def lastindex_def truthy_def m_start_def m_end_def split: option.splits)

lemma span_of_within:
  assumes "match_within r 0 n m"
  shows "span_ok n (0 < minlen r \<and> groups_nonempty r) (fst (span_of m), snd (span_of m), color, bold)"
  using assms by (auto simp: span_of_cases match_within_def split: option.splits)

lemma collect_matches_mem:
  assumes "c \<in> set (collect_matches U pats line)"
  obtains p color bold m where "(p, color, bold) \<in> set pats" "m \<in> set (finditer U p line)"
    "c = (fst (span_of m), snd (span_of m), color, bold)"
  using assms by (auto simp: collect_matches_def)

lemma span_ok_weaken: "span_ok n strict c \<Longrightarrow> span_ok n False c"
  by (cases c) simp

lemma collect_span_ok:
  assumes "c \<in> set (collect_matches U pats line)"
  shows "span_ok (length line) (never_empty pats) c"
proof -
  from assms obtain p color bold m where
    p: "(p, color, bold) \<in> set pats" and m: "m \<in> set (finditer U p line)"
    and c: "c = (fst (span_of m), snd (span_of m), color, bold)"
    by (rule collect_matches_mem)
  from span_of_within [OF finditer_within [OF m], of color bold] c
  have ok: "span_ok (length line) (0 < minlen (p_regex p) \<and> groups_nonempty (p_regex p)) c"
    by simp
  show ?thesis
  proof (cases "never_empty pats")
    case True
    with p have "0 < minlen (p_regex p) \<and> groups_nonempty (p_regex p)"
      by (auto simp: never_empty_def list_all_iff)
    with ok True show ?thesis by simp
  next
    case False
    with span_ok_weaken [OF ok] show ?thesis by simp
  qed
qed

lemma slice_inside:
  "0 \<le> a \<Longrightarrow> a \<le> b \<Longrightarrow> b \<le> int (length s) \<Longrightarrow>
     slice s a b = take (nat b - nat a) (drop (nat a) s)"
  by (simp add: slice_def clamp_index_def Let_def min_def)

lemma slice_from_inside:
  "0 \<le> a \<Longrightarrow> slice_from s a = drop (nat a) s"
  by (simp add: slice_from_def clamp_index_def min_def)

lemma take_drop_parts:
  "0 \<le> a \<Longrightarrow> a \<le> b \<Longrightarrow> take (nat b - nat a) (drop (nat a) s) @ drop (nat b) s = drop (nat a) s"
proof -
  assume a: "0 \<le> a" "a \<le> b"
  then have "drop (nat b) s = drop (nat b - nat a) (drop (nat a) s)" by simp
  then show ?thesis by (simp only: append_take_drop_id)
qed

lemma build_segments_concat:
  assumes "\<forall>c \<in> set ms. span_ok (length line) False c"
    and "0 \<le> le" and "le \<le> int (length line)"
  shows "concat (map fst (build_segments line le (remove_overlaps le ms))) = drop (nat le) line"
  using assms
proof (induction ms arbitrary: le)
  case Nil
  then show ?case by (simp add: slice_from_inside)
next
  case (Cons c ms)
  obtain s e color bold where c: "c = (s, e, color, bold)" by (cases c)
  from Cons.prems(1) c have ok: "0 \<le> s" "s \<le> e" "e \<le> int (length line)" by simp_all
  show ?case
  proof (cases "s \<ge> le")
    case True
    from Cons.prems(1) ok have ih:
      "concat (map fst (build_segments line e (remove_overlaps e ms))) = drop (nat e) line"
      by (intro Cons.IH) simp_all
    have mid: "slice line s e @ drop (nat e) line = drop (nat s) line"
      using ok by (simp add: slice_inside take_drop_parts)
    have front: "(if s > le then slice line le s else []) @ drop (nat s) line = drop (nat le) line"
    proof (cases "s > le")
      case True
      with Cons.prems(2) ok show ?thesis by (simp add: slice_inside take_drop_parts)
    next
      case False
      with \<open>s \<ge> le\<close> have "s = le" by simp
      then show ?thesis by simp
    qed
    from True c ih mid front show ?thesis by (simp split: if_splits)
  next
    case False
    with c Cons show ?thesis by simp
  qed
qed

lemma colorize_with_concat: "concat (map fst (colorize_with U pats line)) = line"
proof (cases "is_comment_line U line")
  case True
  then show ?thesis by (simp add: colorize_with_def)
next
  case False
  let ?f = "remove_overlaps 0 (sort_matches (collect_matches U pats line))"
  have "\<forall>c \<in> set (sort_matches (collect_matches U pats line)). span_ok (length line) False c"
    using collect_span_ok [of _ U pats line] by (auto simp: sort_matches_def dest: span_ok_weaken)
  then have "concat (map fst (build_segments line 0 ?f)) = drop (nat 0) line"
    by (rule build_segments_concat) simp_all
  then have c: "concat (map fst (build_segments line 0 ?f)) = line" by simp
  show ?thesis
  proof (cases "build_segments line 0 ?f = []")
    case True
    with False show ?thesis by (simp add: colorize_with_def Let_def)
  next
    case nonempty: False
    with False c show ?thesis by (simp add: colorize_with_def Let_def)
  qed
qed

text \<open>Every match that the scan reports was found by an attempt at some offset, on the
  rest of the line from that offset.\<close>

lemma scan_origin:
  "m \<in> set (scan U p nxt prev rest pos) \<Longrightarrow>
     \<exists>adv prev' k. k \<le> length rest \<and> match_at U p adv prev' (drop k rest) (pos + k) = Some m"
proof (induction rest arbitrary: nxt prev pos)
  case Nil
  then have "match_at U p False prev (drop 0 []) (pos + 0) = Some m"
    by (auto split: if_splits option.splits)
  then show ?case by blast
next
  case (Cons x xs)
  define origin where "origin = (\<lambda>q r m'. \<exists>adv prev' k. k \<le> length r
                \<and> match_at U p adv prev' (drop k r) (q + k) = Some m')"
  have step: "origin q (x # xs) m"
    if "m \<in> set (scan U p n' (Some x) xs (Suc q))" for n' q
  proof -
    from Cons.IH [OF that] obtain adv prev' k where
      "k \<le> length xs" "match_at U p adv prev' (drop k xs) (Suc q + k) = Some m" by blast
    then have "Suc k \<le> length (x # xs)
        \<and> match_at U p adv prev' (drop (Suc k) (x # xs)) (q + Suc k) = Some m" by simp
    then show ?thesis unfolding origin_def by blast
  qed
  have here: "origin q (x # xs) m'"
    if "match_at U p adv prev (x # xs) q = Some m'" for adv q m'
  proof -
    from that have "0 \<le> length (x # xs)
       \<and> match_at U p adv prev (drop 0 (x # xs)) (q + 0) = Some m'" by simp
    then show ?thesis unfolding origin_def by blast
  qed
  from Cons.prems have "origin pos (x # xs) m"
    by (auto split: if_splits option.splits intro: step here)
  then show ?case unfolding origin_def .
qed

section \<open>Reconstruction\<close>

lemma add_runs_texts:
  "prefix (fst (snd (add_runs api paragraph font_name font_size segments d))) (map fst segments)
   \<and> (fst (add_runs api paragraph font_name font_size segments d) = None \<longrightarrow>
        fst (snd (add_runs api paragraph font_name font_size segments d)) = map fst segments)"
proof (induction segments arbitrary: d)
  case Nil
  then show ?case by simp
next
  case (Cons seg segments)
  obtain ex d1 where one: "add_one_run api paragraph font_name font_size seg d = (ex, d1)"
    by (cases "add_one_run api paragraph font_name font_size seg d")
  show ?case
  proof (cases ex)
    case (Some e)
    with one show ?thesis by simp
  next
    case None
    obtain ex' texts d' where
      r: "add_runs api paragraph font_name font_size segments d1 = (ex', texts, d')"
      by (cases "add_runs api paragraph font_name font_size segments d1") auto
    from Cons.IH [of d1] r have "prefix texts (map fst segments)"
      and "ex' = None \<longrightarrow> texts = map fst segments" by simp_all
    with one None r show ?thesis by simp
  qed
qed

text \<open>
  C1. The texts of the segments that \<open>colorize_line\<close> returns, put together in order,
  are the line it was given, for every line. The one substitution happens before the
  call: \<open>add_colored_runs\<close> calls \<open>colorize_line\<close> on the line itself, or on a single
  no-break space when the stripped line is empty. The texts it passes to
  \<open>paragraph.add_run\<close> are the texts of those segments, in order, up to the first
  call of the library that raises; when none raises, they put together are the line, or
  the no-break space. What the library stores is not claimed.
\<close>

theorem reconstruction:
  "concat (map fst (colorize_line U line)) = line
   \<and> display_line U line = (if strip U line = [] then [NBSP] else line)
   \<and> prefix (fst (snd (add_colored_runs api U paragraph line font_name font_size d)))
        (map fst (colorize_line U (display_line U line)))
   \<and> (fst (add_colored_runs api U paragraph line font_name font_size d) = None \<longrightarrow>
        fst (snd (add_colored_runs api U paragraph line font_name font_size d))
          = map fst (colorize_line U (display_line U line))
        \<and> concat (fst (snd (add_colored_runs api U paragraph line font_name font_size d)))
          = (if strip U line = [] then [NBSP] else line))"
proof -
  have a: "concat (map fst (colorize_line U l)) = l" for l
    by (simp add: colorize_line_def colorize_with_concat)
  have b: "display_line U line = (if strip U line = [] then [NBSP] else line)"
    by (simp add: display_line_def)
  from add_runs_texts [of api "paragraph" font_name font_size
         "colorize_line U (display_line U line)" d]
  have c: "prefix (fst (snd (add_colored_runs api U paragraph line font_name font_size d)))
        (map fst (colorize_line U (display_line U line)))"
    and e: "fst (add_colored_runs api U paragraph line font_name font_size d) = None \<longrightarrow>
        fst (snd (add_colored_runs api U paragraph line font_name font_size d))
          = map fst (colorize_line U (display_line U line))"
    by (simp_all add: add_colored_runs_def)
  from a [of line] a [of "display_line U line"] b c e show ?thesis by metis
qed

theorem reconstruction_witness:
  "concat (map fst (colorize_line ascii_db (ustr ''12.12.12.1 FULL 1.1.1.3'')))
     = ustr ''12.12.12.1 FULL 1.1.1.3''
   \<and> strip ascii_db (ustr ''   '') = []
   \<and> display_line ascii_db (ustr ''   '') = [NBSP]
   \<and> add_colored_runs list_docx ascii_db () (ustr ''   '') ''Consolas'' 17 []
       = (None, [[NBSP]], [[NBSP]])
   \<and> concat (fst (snd (add_colored_runs list_docx ascii_db () (ustr ''   '') ''Consolas'' 17 [])))
       = [NBSP]
   \<and> add_colored_runs list_docx ascii_db () [0, 32, 85, 80] ''Consolas'' 17 []
       = (Some (OtherException ''ValueError''), [[0, 32]], [])
   \<and> prefix [[0, 32]] (map fst (colorize_line ascii_db (display_line ascii_db [0, 32, 85, 80])))"
proof -
  have e: "strip ascii_db (ustr ''   '') = []" by code_simp
  have f: "add_colored_runs list_docx ascii_db () (ustr ''   '') ''Consolas'' 17 []
       = (None, [[NBSP]], [[NBSP]])" by code_simp
  have g: "add_colored_runs list_docx ascii_db () [0, 32, 85, 80] ''Consolas'' 17 []
       = (Some (OtherException ''ValueError''), [[0, 32]], [])" by code_simp
  note r1 = reconstruction [of ascii_db "ustr ''12.12.12.1 FULL 1.1.1.3''"
                              list_docx "()" "''Consolas''" 17 "[]"]
  note r2 = reconstruction [of ascii_db "ustr ''   ''" list_docx "()" "''Consolas''" 17 "[]"]
  note r3 = reconstruction [of ascii_db "[0, 32, 85, 80]" list_docx "()" "''Consolas''" 17 "[]"]
  from r1 have a: "concat (map fst (colorize_line ascii_db (ustr ''12.12.12.1 FULL 1.1.1.3'')))
     = ustr ''12.12.12.1 FULL 1.1.1.3''" by (rule conjunct1)
  from r2 e have b: "display_line ascii_db (ustr ''   '') = [NBSP]" by simp
  have c: "concat (fst (snd (add_colored_runs list_docx ascii_db ()
                                (ustr ''   '') ''Consolas'' 17 []))) = [NBSP]"
  proof -
    from r2 have "fst (add_colored_runs list_docx ascii_db () (ustr ''   '') ''Consolas'' 17 [])
                    = None \<longrightarrow>
        concat (fst (snd (add_colored_runs list_docx ascii_db () (ustr ''   '') ''Consolas'' 17 [])))
          = (if strip ascii_db (ustr ''   '') = [] then [NBSP] else ustr ''   '')"
      by blast
    moreover from f
    have "fst (add_colored_runs list_docx ascii_db () (ustr ''   '') ''Consolas'' 17 []) = None"
      by simp
    ultimately
    have "concat (fst (snd (add_colored_runs list_docx ascii_db () (ustr ''   '') ''Consolas'' 17 [])))
          = (if strip ascii_db (ustr ''   '') = [] then [NBSP] else ustr ''   '')"
      by blast
    with e show ?thesis by simp
  qed
  have d: "prefix [[0, 32]]
      (map fst (colorize_line ascii_db (display_line ascii_db [0, 32, 85, 80])))"
  proof -
    from r3
    have "prefix (fst (snd (add_colored_runs list_docx ascii_db () [0, 32, 85, 80] ''Consolas'' 17 [])))
            (map fst (colorize_line ascii_db (display_line ascii_db [0, 32, 85, 80])))"
      by blast
    with g show ?thesis by simp
  qed
  from a b c d e f g show ?thesis by simp
qed

section \<open>The segments partition the line\<close>

lemma never_empty_SH_PATTERNS: "never_empty SH_PATTERNS"
  by code_simp

lemma slice_to_end: "slice line a (int (length line)) = slice_from line a"
  by (simp add: slice_def slice_from_def clamp_index_def Let_def)

lemma build_segments_spans:
  "map fst (build_segments line pos fs)
     = map (\<lambda>(a, b). slice line a b) (build_spans (length line) pos fs)"
  by (induction fs arbitrary: pos) (auto simp: slice_to_end)

lemma build_spans_contiguous:
  assumes "\<forall>c \<in> set ms. span_ok n False c" and "0 \<le> le" and "le \<le> int n"
  shows "contiguous le (build_spans n le (remove_overlaps le ms)) (int n)"
  using assms
proof (induction ms arbitrary: le)
  case Nil
  then show ?case by simp
next
  case (Cons c ms)
  obtain s e color bold where c: "c = (s, e, color, bold)" by (cases c)
  from Cons.prems(1) c have ok: "0 \<le> s" "s \<le> e" "e \<le> int n" by simp_all
  show ?case
  proof (cases "s \<ge> le")
    case True
    from Cons.prems(1) ok
    have "contiguous e (build_spans n e (remove_overlaps e ms)) (int n)"
      by (intro Cons.IH) simp_all
    with True c show ?thesis by simp
  next
    case False
    with c Cons show ?thesis by simp
  qed
qed

lemma build_spans_nonempty:
  assumes "\<forall>c \<in> set ms. span_ok n True c"
  shows "\<forall>(a, b) \<in> set (build_spans n le (remove_overlaps le ms)). le \<le> a \<and> a < b \<and> b \<le> int n"
  using assms
proof (induction ms arbitrary: le)
  case Nil
  then show ?case by simp
next
  case (Cons c ms)
  obtain s e color bold where c: "c = (s, e, color, bold)" by (cases c)
  from Cons.prems c have ok: "0 \<le> s" "s < e" "e \<le> int n" by simp_all
  show ?case
  proof (cases "s \<ge> le")
    case True
    from Cons.prems
    have "\<forall>(a, b) \<in> set (build_spans n e (remove_overlaps e ms)). e \<le> a \<and> a < b \<and> b \<le> int n"
      by (intro Cons.IH) simp
    with True c ok show ?thesis by auto
  next
    case False
    with c Cons show ?thesis by simp
  qed
qed

lemma sorted_candidates_ok:
  "\<forall>c \<in> set (sort_matches (collect_matches U SH_PATTERNS line)). span_ok (length line) True c"
  using collect_span_ok [of _ U SH_PATTERNS line] never_empty_SH_PATTERNS
  by (simp add: sort_matches_def)

lemma no_candidates_in_empty_line: "collect_matches U SH_PATTERNS [] = []"
proof (cases "collect_matches U SH_PATTERNS []")
  case Nil
  then show ?thesis .
next
  case (Cons c cs)
  then have "c \<in> set (collect_matches U SH_PATTERNS [])" by simp
  from collect_span_ok [OF this] never_empty_SH_PATTERNS have False
    by (cases c) auto
  then show ?thesis ..
qed

lemma empty_line_not_comment: "\<not> is_comment_line U []"
  by (simp add: is_comment_line_def strip_def startswith_def ustr_simps)

lemma segment_spans_unfold:
  "\<not> is_comment_line U line \<Longrightarrow>
     segment_spans U line =
       (let spans = build_spans (length line) 0
                      (remove_overlaps 0 (sort_matches (collect_matches U SH_PATTERNS line)))
        in if spans = [] then [(0, int (length line))] else spans)"
  by (simp add: segment_spans_def Let_def)

lemma colorize_line_unfold:
  "\<not> is_comment_line U line \<Longrightarrow>
     colorize_line U line =
       (let segments = build_segments line 0
                      (remove_overlaps 0 (sort_matches (collect_matches U SH_PATTERNS line)))
        in if segments = [] then [(line, CLR_DEFAULT, False)] else segments)"
  by (simp add: colorize_line_def colorize_with_def Let_def)

lemma slice_whole: "slice line 0 (int (length line)) = line"
  by (simp add: slice_def clamp_index_def)

lemma segments_are_slices:
  "map fst (colorize_line U line) = map (\<lambda>(a, b). slice line a b) (segment_spans U line)"
proof (cases "is_comment_line U line")
  case True
  then show ?thesis
    by (simp add: colorize_line_def colorize_with_def segment_spans_def slice_whole)
next
  case False
  let ?f = "remove_overlaps 0 (sort_matches (collect_matches U SH_PATTERNS line))"
  have eq: "map fst (build_segments line 0 ?f)
              = map (\<lambda>(a, b). slice line a b) (build_spans (length line) 0 ?f)"
    by (rule build_segments_spans)
  then have "length (build_segments line 0 ?f) = length (build_spans (length line) 0 ?f)"
    by (metis length_map)
  then have nil: "build_segments line 0 ?f = [] \<longleftrightarrow> build_spans (length line) 0 ?f = []"
    by (metis length_0_conv)
  from False eq nil show ?thesis
    by (simp add: colorize_line_unfold segment_spans_unfold Let_def slice_whole)
qed

lemma segment_spans_contiguous:
  "contiguous 0 (segment_spans U line) (int (length line))"
proof (cases "is_comment_line U line")
  case True
  then show ?thesis by (simp add: segment_spans_def)
next
  case False
  have "contiguous 0 (build_spans (length line) 0
          (remove_overlaps 0 (sort_matches (collect_matches U SH_PATTERNS line))))
          (int (length line))"
    using sorted_candidates_ok [of U line]
    by (intro build_spans_contiguous) (auto dest: span_ok_weaken)
  with False show ?thesis by (simp add: segment_spans_unfold Let_def)
qed

lemma segment_spans_nonempty:
  assumes "line \<noteq> []"
  shows "\<forall>(a, b) \<in> set (segment_spans U line). 0 \<le> a \<and> a < b \<and> b \<le> int (length line)"
proof (cases "is_comment_line U line")
  case True
  with assms show ?thesis by (simp add: segment_spans_def)
next
  case False
  from build_spans_nonempty [OF sorted_candidates_ok [of U line], of 0] False assms
  show ?thesis by (simp add: segment_spans_unfold Let_def)
qed

lemma segment_spans_empty_line: "segment_spans U [] = [(0, 0)]"
  by (simp add: segment_spans_unfold empty_line_not_comment no_candidates_in_empty_line
      sort_matches_def)

lemma slice_nonempty:
  "0 \<le> a \<Longrightarrow> a < b \<Longrightarrow> b \<le> int (length line) \<Longrightarrow> slice line a b \<noteq> []"
  by (simp add: slice_inside) linarith

text \<open>
  C2. The segments of \<open>colorize_line\<close> are the slices of the line at the offsets
  \<open>segment_spans\<close>; these spans start at offset 0, each starts where the one before
  ends, and the last ends at the length of the line, so no two overlap and nothing is
  left out. In a line that is not empty no span and no segment is empty; the empty
  line gives the one empty segment in the default colour.
\<close>

theorem segments_partition:
  "map fst (colorize_line U line) = map (\<lambda>(a, b). slice line a b) (segment_spans U line)
   \<and> contiguous 0 (segment_spans U line) (int (length line))
   \<and> (line \<noteq> [] \<longrightarrow> (\<forall>(a, b) \<in> set (segment_spans U line). a < b))
   \<and> (line \<noteq> [] \<longrightarrow> (\<forall>seg \<in> set (colorize_line U line). fst seg \<noteq> []))
   \<and> (line = [] \<longrightarrow> segment_spans U line = [(0, 0)]
                      \<and> colorize_line U line = [([], CLR_DEFAULT, False)])"
proof (intro conjI impI)
  show "map fst (colorize_line U line) = map (\<lambda>(a, b). slice line a b) (segment_spans U line)"
    by (rule segments_are_slices)
  show "contiguous 0 (segment_spans U line) (int (length line))"
    by (rule segment_spans_contiguous)
  show "\<forall>(a, b) \<in> set (segment_spans U line). a < b" if "line \<noteq> []"
    using segment_spans_nonempty [OF that, of U] by auto
  show "\<forall>seg \<in> set (colorize_line U line). fst seg \<noteq> []" if "line \<noteq> []"
  proof
    fix seg assume "seg \<in> set (colorize_line U line)"
    then have "fst seg \<in> set (map (\<lambda>(a, b). slice line a b) (segment_spans U line))"
      by (metis segments_are_slices image_eqI set_map)
    then obtain a b where "(a, b) \<in> set (segment_spans U line)" "fst seg = slice line a b"
      by auto
    with segment_spans_nonempty [OF that, of U] show "fst seg \<noteq> []"
      by (auto simp: slice_nonempty)
  qed
  show "segment_spans U line = [(0, 0)]" if "line = []"
    using that by (simp add: segment_spans_empty_line)
  show "colorize_line U line = [([], CLR_DEFAULT, False)]" if "line = []"
    using that
    by (simp add: colorize_line_unfold empty_line_not_comment no_candidates_in_empty_line
        sort_matches_def)
qed

theorem segments_partition_witness:
  "ustr ''sw1# show ip ospf neighbor'' \<noteq> []
   \<and> segment_spans ascii_db (ustr ''sw1# show ip ospf neighbor'') = [(0, 5), (5, 26)]
   \<and> contiguous 0 [(0, 5), (5, 26)] (int (length (ustr ''sw1# show ip ospf neighbor'')))
   \<and> list_all (\<lambda>(a, b). a < b) (segment_spans ascii_db (ustr ''sw1# show ip ospf neighbor''))
   \<and> list_all (\<lambda>seg. fst seg \<noteq> []) (colorize_line ascii_db (ustr ''sw1# show ip ospf neighbor''))
   \<and> map fst (colorize_line ascii_db (ustr ''sw1# show ip ospf neighbor''))
       = [ustr ''sw1# '', ustr ''show ip ospf neighbor'']"
proof -
  have ne: "ustr ''sw1# show ip ospf neighbor'' \<noteq> []" by (simp add: ustr_simps)
  have sp: "segment_spans ascii_db (ustr ''sw1# show ip ospf neighbor'') = [(0, 5), (5, 26)]"
    by code_simp
  have sl: "map (\<lambda>(a, b). slice (ustr ''sw1# show ip ospf neighbor'') a b) [(0, 5), (5, 26)]
              = [ustr ''sw1# '', ustr ''show ip ospf neighbor'']"
    by code_simp
  from segments_partition [of ascii_db "ustr ''sw1# show ip ospf neighbor''"] ne sp sl
  show ?thesis by (simp add: list_all_iff)
qed

section \<open>Totality\<close>

lemma colorize_with_nonempty: "colorize_with U pats line \<noteq> []"
  by (simp add: colorize_with_def Let_def)

text \<open>A pattern without a group never sets \<open>m.lastindex\<close>, so group 1 is asked for
  only where it exists.\<close>

lemma no_group_no_capture:
  "groups r = 0 \<Longrightarrow> st' \<in> set (rmatch U ic r st) \<Longrightarrow> ms_grp st' = ms_grp st"
proof (induction r arbitrary: st st')
  case (Atom a)
  then show ?case
    by (cases "ms_rest st") (auto simp: advance_Cons split: if_splits)
next
  case (Many lo hi a)
  then show ?case using greedy_reach [of st' U ic a hi "ms_rest st" st] by auto
next
  case (Opt r)
  from Opt.prems have "st' \<in> set (rmatch U ic r st) \<or> st' = st" by auto
  then show ?case using Opt.IH [of st' st] Opt.prems(1) by auto
next
  case (Seq r1 r2)
  from Seq.prems(2) obtain st'' where a: "st'' \<in> set (rmatch U ic r1 st)"
    and b: "st' \<in> set (rmatch U ic r2 st'')" by auto
  from Seq.prems(1) have "groups r1 = 0" "groups r2 = 0" by simp_all
  with Seq.IH(1) [OF _ a] Seq.IH(2) [OF _ b] show ?case by simp
next
  case (Alt r1 r2)
  from Alt.prems(2)
  have "st' \<in> set (rmatch U ic r1 st) \<or> st' \<in> set (rmatch U ic r2 st)" by auto
  moreover from Alt.prems(1) have "groups r1 = 0" "groups r2 = 0" by simp_all
  ultimately show ?case using Alt.IH(1) [of st' st] Alt.IH(2) [of st' st] by auto
next
  case (Group r)
  then show ?case by simp
qed (auto split: if_splits)

lemma match_at_group:
  assumes "match_at U p adv prev rest pos = Some m" and "groups (p_regex p) = 0"
  shows "m_group1 m = None"
proof -
  let ?st = "\<lparr>ms_prev = prev, ms_rest = rest, ms_pos = pos, ms_grp = None\<rparr>"
  from assms(1) obtain st' sts where
    f: "filter (\<lambda>st. \<not> (adv \<and> ms_pos st = pos)) (rmatch U (p_ignorecase p) (p_regex p) ?st)
          = st' # sts"
    and m: "m = \<lparr>m_span = (pos, ms_pos st'), m_group1 = ms_grp st'\<rparr>"
    by (auto simp: match_at_def split: list.splits)
  from f have "st' \<in> set (filter (\<lambda>st. \<not> (adv \<and> ms_pos st = pos))
                    (rmatch U (p_ignorecase p) (p_regex p) ?st))" by simp
  then have "st' \<in> set (rmatch U (p_ignorecase p) (p_regex p) ?st)" by simp
  from no_group_no_capture [OF assms(2) this] m show ?thesis by simp
qed

lemma finditer_group:
  assumes "m \<in> set (finditer U p line)" and "groups (p_regex p) = 0"
  shows "m_group1 m = None"
proof -
  from assms(1) scan_origin [of m U p 0 None line 0]
  obtain adv prev' k where "match_at U p adv prev' (drop k line) k = Some m"
    by (auto simp: finditer_def)
  from match_at_group [OF this assms(2)] show ?thesis .
qed

lemma span_or_raise_ok:
  assumes "m \<in> set (finditer U p line)"
  shows "span_or_raise p line m = Inr (span_of m)"
proof (cases "groups (p_regex p) = 0")
  case True
  from finditer_group [OF assms True] True show ?thesis
    by (simp add: span_or_raise_def span_of_def lastindex_def truthy_def m_group_or_raise_def
        m_start_or_raise_def m_end_or_raise_def)
next
  case False
  then show ?thesis
    by (simp add: span_or_raise_def span_of_def m_group_or_raise_def m_start_or_raise_def
        m_end_or_raise_def Let_def)
qed

lemma append_spans_ok:
  assumes "\<forall>m \<in> set ms. span_or_raise p line m = Inr (span_of m)"
  shows "append_spans p color bold line ms acc
           = Inr (acc @ map (\<lambda>m. (fst (span_of m), snd (span_of m), color, bold)) ms)"
  using assms
proof (induction ms arbitrary: acc)
  case Nil
  then show ?case by simp
next
  case (Cons m ms)
  from Cons.prems have "span_or_raise p line m = Inr (span_of m)" by simp
  moreover from Cons.prems
  have "append_spans p color bold line ms (acc @ [(fst (span_of m), snd (span_of m), color, bold)])
          = Inr ((acc @ [(fst (span_of m), snd (span_of m), color, bold)])
                 @ map (\<lambda>m. (fst (span_of m), snd (span_of m), color, bold)) ms)"
    by (intro Cons.IH) simp
  ultimately show ?case by (simp add: case_prod_beta)
qed

lemma collect_or_raise_ok:
  "collect_or_raise U pats line acc = Inr (acc @ collect_matches U pats line)"
proof (induction pats arbitrary: acc)
  case Nil
  then show ?case by (simp add: collect_matches_def)
next
  case (Cons x pats)
  obtain p color bold where x: "x = (p, color, bold)" by (cases x)
  have "append_spans p color bold line (finditer U p line) acc
          = Inr (acc @ map (\<lambda>m. (fst (span_of m), snd (span_of m), color, bold))
                         (finditer U p line))"
    by (rule append_spans_ok) (simp add: span_or_raise_ok)
  with Cons.IH x show ?case by (simp add: collect_matches_def)
qed

lemma colorize_or_raise_ok:
  "colorize_or_raise U pats line = Inr (colorize_with U pats line)"
  by (simp add: colorize_or_raise_def colorize_with_def collect_or_raise_ok Let_def)

text \<open>
  C8. \<open>colorize_line\<close> raises nothing: with the \<open>IndexError\<close> of the match accessors
  written out, the function returns a list of segments for every line, whatever code
  points it holds, and for every list of patterns, because group 1 is asked for only
  after \<open>m.lastindex\<close> was found set. The list is never empty. When no pattern matches
  a line that is not a comment, it is the one segment that holds the whole line in the
  default colour; and every span recorded for the patterns of \<open>_SH_PATTERNS\<close> is a pair
  of offsets inside the line.
\<close>

theorem colorize_line_total:
  "colorize_or_raise U SH_PATTERNS line = Inr (colorize_line U line)
   \<and> (\<forall>pats. colorize_or_raise U pats line = Inr (colorize_with U pats line))
   \<and> colorize_line U line \<noteq> []
   \<and> (\<forall>pats. colorize_with U pats line \<noteq> [])
   \<and> (\<not> is_comment_line U line \<and> collect_matches U SH_PATTERNS line = []
        \<longrightarrow> colorize_line U line = [(line, CLR_DEFAULT, False)])
   \<and> (\<forall>(s, e, color, bold) \<in> set (collect_matches U SH_PATTERNS line).
         0 \<le> s \<and> s < e \<and> e \<le> int (length line))"
proof (intro conjI allI impI)
  show "colorize_or_raise U SH_PATTERNS line = Inr (colorize_line U line)"
    by (simp add: colorize_or_raise_ok colorize_line_def)
  show "colorize_or_raise U pats line = Inr (colorize_with U pats line)" for pats
    by (rule colorize_or_raise_ok)
  show "colorize_line U line \<noteq> []"
    by (simp add: colorize_line_def colorize_with_nonempty)
  show "colorize_with U pats line \<noteq> []" for pats
    by (rule colorize_with_nonempty)
  show "colorize_line U line = [(line, CLR_DEFAULT, False)]"
    if "\<not> is_comment_line U line \<and> collect_matches U SH_PATTERNS line = []"
    using that
    by (cases "line = []")
      (simp_all add: colorize_line_unfold sort_matches_def slice_from_def clamp_index_def)
  show "\<forall>(s, e, color, bold) \<in> set (collect_matches U SH_PATTERNS line).
         0 \<le> s \<and> s < e \<and> e \<le> int (length line)"
  proof clarify
    fix s e color bold
    assume "(s, e, color, bold) \<in> set (collect_matches U SH_PATTERNS line)"
    from collect_span_ok [OF this] never_empty_SH_PATTERNS
    show "0 \<le> s \<and> s < e \<and> e \<le> int (length line)" by simp
  qed
qed

theorem colorize_line_total_witness:
  "\<not> is_comment_line ascii_db [0, 7, 27, 255, 200, 10, 35]
   \<and> collect_matches ascii_db SH_PATTERNS [0, 7, 27, 255, 200, 10, 35] = []
   \<and> colorize_or_raise ascii_db SH_PATTERNS [0, 7, 27, 255, 200, 10, 35]
       = Inr [([0, 7, 27, 255, 200, 10, 35], CLR_DEFAULT, False)]
   \<and> collect_matches ascii_db SH_PATTERNS (ustr ''1.1.1.1 DOWN'')
       = [(0, 7, CLR_IP, False), (8, 12, CLR_RED, True)]
   \<and> span_or_raise (re_compile (Many 1 None digit)) (ustr ''ab12'')
        \<lparr>m_span = (2, 4), m_group1 = Some (2, 4)\<rparr> = Inl IndexError
   \<and> colorize_or_raise ascii_db [(re_compile (Many 1 None digit), CLR_VNI, False)] (ustr ''ab12'')
       = Inr [(ustr ''ab'', CLR_DEFAULT, False), (ustr ''12'', CLR_VNI, False)]"
proof -
  have a: "\<not> is_comment_line ascii_db [0, 7, 27, 255, 200, 10, 35]" by code_simp
  have b: "collect_matches ascii_db SH_PATTERNS [0, 7, 27, 255, 200, 10, 35] = []"
    by code_simp
  have c: "collect_matches ascii_db SH_PATTERNS (ustr ''1.1.1.1 DOWN'')
       = [(0, 7, CLR_IP, False), (8, 12, CLR_RED, True)]" by code_simp
  have d: "span_or_raise (re_compile (Many 1 None digit)) (ustr ''ab12'')
        \<lparr>m_span = (2, 4), m_group1 = Some (2, 4)\<rparr> = Inl IndexError" by code_simp
  have e: "colorize_with ascii_db [(re_compile (Many 1 None digit), CLR_VNI, False)] (ustr ''ab12'')
       = [(ustr ''ab'', CLR_DEFAULT, False), (ustr ''12'', CLR_VNI, False)]" by code_simp
  note t = colorize_line_total [of ascii_db "[0, 7, 27, 255, 200, 10, 35]"]
  from t a b have "colorize_line ascii_db [0, 7, 27, 255, 200, 10, 35]
       = [([0, 7, 27, 255, 200, 10, 35], CLR_DEFAULT, False)]" by blast
  moreover from t have "colorize_or_raise ascii_db SH_PATTERNS [0, 7, 27, 255, 200, 10, 35]
       = Inr (colorize_line ascii_db [0, 7, 27, 255, 200, 10, 35])" by blast
  ultimately have f: "colorize_or_raise ascii_db SH_PATTERNS [0, 7, 27, 255, 200, 10, 35]
       = Inr [([0, 7, 27, 255, 200, 10, 35], CLR_DEFAULT, False)]" by simp
  from colorize_line_total [of ascii_db "ustr ''ab12''"]
  have "colorize_or_raise ascii_db [(re_compile (Many 1 None digit), CLR_VNI, False)] (ustr ''ab12'')
       = Inr (colorize_with ascii_db [(re_compile (Many 1 None digit), CLR_VNI, False)]
                (ustr ''ab12''))" by blast
  with e have g: "colorize_or_raise ascii_db [(re_compile (Many 1 None digit), CLR_VNI, False)]
       (ustr ''ab12'')
       = Inr [(ustr ''ab'', CLR_DEFAULT, False), (ustr ''12'', CLR_VNI, False)]" by simp
  from a b c d f g show ?thesis by simp
qed

section \<open>The recorded span\<close>

text \<open>
  C7. For a match whose group 1 took part, the span that \<open>colorize_line\<close> records is
  the span of the group; for a match without a group it is the span of the whole match.
  The candidates that go into the overlap scan and the colouring are these spans, one
  per match of each pattern, with the colour and the weight of the pattern.
\<close>

theorem group_span_recorded:
  "(m_group1 m = Some (gs, ge) \<longrightarrow> span_of m = (int gs, int ge))
   \<and> (m_group1 m = None \<longrightarrow> span_of m = (int (fst (m_span m)), int (snd (m_span m))))
   \<and> set (collect_matches U pats line)
       = {(fst (span_of m'), snd (span_of m'), color, bold) | m' p color bold.
            (p, color, bold) \<in> set pats \<and> m' \<in> set (finditer U p line)}"
proof (intro conjI impI)
  show "span_of m = (int gs, int ge)" if "m_group1 m = Some (gs, ge)"
    using that by (simp add: span_of_cases)
  show "span_of m = (int (fst (m_span m)), int (snd (m_span m)))" if "m_group1 m = None"
    using that by (simp add: span_of_cases)
  show "set (collect_matches U pats line)
       = {(fst (span_of m'), snd (span_of m'), color, bold) | m' p color bold.
            (p, color, bold) \<in> set pats \<and> m' \<in> set (finditer U p line)}"
    by (auto simp: collect_matches_def)
qed

theorem group_span_recorded_witness:
  "finditer ascii_db (re_compile re_keyword) (ustr ''  interface Gi1'')
     = [\<lparr>m_span = (0, 11), m_group1 = Some (2, 11)\<rparr>]
   \<and> span_of \<lparr>m_span = (0, 11), m_group1 = Some (2, 11)\<rparr> = (2, 11)
   \<and> finditer ascii_db (re_compile (Many 1 None digit)) (ustr ''ab12'')
     = [\<lparr>m_span = (2, 4), m_group1 = None\<rparr>]
   \<and> span_of \<lparr>m_span = (2, 4), m_group1 = None\<rparr> = (2, 4)
   \<and> colorize_line ascii_db (ustr ''  interface Gi1'')
     = [(ustr ''  '', CLR_DEFAULT, False), (ustr ''interface'', CLR_KEYWORD, True),
        (ustr '' '', CLR_DEFAULT, False), (ustr ''Gi1'', CLR_IFACE, False)]
   \<and> colorize_with ascii_db [(re_compile (Many 1 None digit), CLR_VNI, False)] (ustr ''ab12'')
     = [(ustr ''ab'', CLR_DEFAULT, False), (ustr ''12'', CLR_VNI, False)]"
proof -
  have a: "finditer ascii_db (re_compile re_keyword) (ustr ''  interface Gi1'')
     = [\<lparr>m_span = (0, 11), m_group1 = Some (2, 11)\<rparr>]" by code_simp
  have b: "finditer ascii_db (re_compile (Many 1 None digit)) (ustr ''ab12'')
     = [\<lparr>m_span = (2, 4), m_group1 = None\<rparr>]" by code_simp
  have c: "colorize_line ascii_db (ustr ''  interface Gi1'')
     = [(ustr ''  '', CLR_DEFAULT, False), (ustr ''interface'', CLR_KEYWORD, True),
        (ustr '' '', CLR_DEFAULT, False), (ustr ''Gi1'', CLR_IFACE, False)]" by code_simp
  have d: "colorize_with ascii_db [(re_compile (Many 1 None digit), CLR_VNI, False)] (ustr ''ab12'')
     = [(ustr ''ab'', CLR_DEFAULT, False), (ustr ''12'', CLR_VNI, False)]" by code_simp
  from group_span_recorded [of "\<lparr>m_span = (0, 11), m_group1 = Some (2, 11)\<rparr>" 2 11]
    group_span_recorded [of "\<lparr>m_span = (2, 4), m_group1 = None\<rparr>"]
    a b c d
  show ?thesis by simp
qed


section \<open>Case sensitivity\<close>




lemma same_state_refl_parts:
  "same_state st st' \<Longrightarrow> ms_pos st = ms_pos st' \<and> ms_grp st = ms_grp st'"
  by (simp add: same_state_def)






































section \<open>Overlapping spans\<close>

lemma remove_overlaps_subseq: "subseq (remove_overlaps le cs) cs"
proof (induction cs arbitrary: le)
  case Nil
  then show ?case by simp
next
  case (Cons c cs)
  obtain s e color bold where c: "c = (s, e, color, bold)" by (cases c)
  show ?case
  proof (cases "s \<ge> le")
    case True
    with c Cons.IH [of e] show ?thesis by simp
  next
    case False
    with c Cons.IH [of le] show ?thesis by (simp add: list_emb_Cons)
  qed
qed

lemma remove_overlaps_start:
  assumes "\<forall>c \<in> set cs. span_ok n False c" and "k \<in> set (remove_overlaps le cs)"
  shows "le \<le> fst k"
  using assms
proof (induction cs arbitrary: le)
  case Nil
  then show ?case by simp
next
  case (Cons c cs)
  obtain s e color bold where c: "c = (s, e, color, bold)" by (cases c)
  from Cons.prems(1) c have se: "s \<le> e" by simp
  from Cons.prems(1) have rest: "\<forall>c \<in> set cs. span_ok n False c" by simp
  show ?case
  proof (cases "s \<ge> le")
    case True
    with Cons.prems(2) c have "k = c \<or> k \<in> set (remove_overlaps e cs)" by auto
    then show ?thesis
    proof
      assume "k = c" with True c show ?thesis by simp
    next
      assume "k \<in> set (remove_overlaps e cs)"
      from Cons.IH [OF rest this] have "e \<le> fst k" .
      with True se show ?thesis by simp
    qed
  next
    case False
    with Cons.prems(2) c have "k \<in> set (remove_overlaps le cs)" by simp
    from Cons.IH [OF rest this] show ?thesis .
  qed
qed

text \<open>Kept spans do not overlap.\<close>

lemma remove_overlaps_disjoint:
  assumes "\<forall>c \<in> set cs. span_ok n False c"
  shows "sorted_wrt (\<lambda>a b. fst (snd a) \<le> fst b) (remove_overlaps le cs)"
  using assms
proof (induction cs arbitrary: le)
  case Nil
  then show ?case by simp
next
  case (Cons c cs)
  obtain s e color bold where c: "c = (s, e, color, bold)" by (cases c)
  from Cons.prems have rest: "\<forall>c \<in> set cs. span_ok n False c" by simp
  show ?case
  proof (cases "s \<ge> le")
    case True
    have "\<forall>k \<in> set (remove_overlaps e cs). e \<le> fst k"
      using remove_overlaps_start [OF rest] by blast
    with True c Cons.IH [OF rest, of e] show ?thesis by simp
  next
    case False
    with c Cons.IH [OF rest, of le] show ?thesis by simp
  qed
qed

text \<open>A span that is dropped starts inside a kept span that starts no later.\<close>

lemma dropped_overlaps_kept:
  assumes "sorted (map fst cs)" and "c \<in> set cs" and "c \<notin> set (remove_overlaps le cs)"
  shows "fst c < le
         \<or> (\<exists>k \<in> set (remove_overlaps le cs). fst k \<le> fst c \<and> fst c < fst (snd k))"
  using assms
proof (induction cs arbitrary: le)
  case Nil
  then show ?case by simp
next
  case (Cons x cs)
  obtain s e color bold where x: "x = (s, e, color, bold)" by (cases x)
  from Cons.prems(1) have srt: "sorted (map fst cs)" and lo: "\<forall>y \<in> set cs. s \<le> fst y"
    using x by simp_all
  show ?case
  proof (cases "s \<ge> le")
    case True
    then have kept: "remove_overlaps le (x # cs) = x # remove_overlaps e cs"
      using x by simp
    with Cons.prems(3) have "c \<noteq> x" and nk: "c \<notin> set (remove_overlaps e cs)" by auto
    with Cons.prems(2) have mem: "c \<in> set cs" by simp
    from Cons.IH [OF srt mem nk] show ?thesis
    proof
      assume "fst c < e"
      with lo mem x have "fst x \<le> fst c \<and> fst c < fst (snd x)" by simp
      with kept show ?thesis by auto
    next
      assume "\<exists>k \<in> set (remove_overlaps e cs). fst k \<le> fst c \<and> fst c < fst (snd k)"
      with kept show ?thesis by auto
    qed
  next
    case False
    then have kept: "remove_overlaps le (x # cs) = remove_overlaps le cs"
      using x by simp
    show ?thesis
    proof (cases "c = x")
      case True
      with False x show ?thesis by simp
    next
      case ne: False
      with Cons.prems(2) have mem: "c \<in> set cs" by simp
      from Cons.prems(3) kept have "c \<notin> set (remove_overlaps le cs)" by simp
      from Cons.IH [OF srt mem this] kept show ?thesis by simp
    qed
  qed
qed

text \<open>A kept span is the first of the spans that start at its offset.\<close>

lemma kept_is_first_at_offset:
  assumes "\<forall>c \<in> set cs. span_ok n True c" and "k \<in> set (remove_overlaps le cs)"
  shows "k = hd (filter (\<lambda>c. fst c = fst k) cs)"
  using assms
proof (induction cs arbitrary: le)
  case Nil
  then show ?case by simp
next
  case (Cons x cs)
  obtain s e color bold where x: "x = (s, e, color, bold)" by (cases x)
  from Cons.prems(1) x have se: "s < e" by simp
  from Cons.prems(1) have rest: "\<forall>c \<in> set cs. span_ok n True c" by simp
  then have rest': "\<forall>c \<in> set cs. span_ok n False c" by (auto dest: span_ok_weaken)
  show ?case
  proof (cases "s \<ge> le")
    case True
    with Cons.prems(2) x have "k = x \<or> k \<in> set (remove_overlaps e cs)" by auto
    then show ?thesis
    proof
      assume "k = x" then show ?thesis by simp
    next
      assume mem: "k \<in> set (remove_overlaps e cs)"
      from remove_overlaps_start [OF rest' mem] se x have "fst x \<noteq> fst k" by simp
      with Cons.IH [OF rest mem] show ?thesis by simp
    qed
  next
    case False
    with Cons.prems(2) x have mem: "k \<in> set (remove_overlaps le cs)" by simp
    from remove_overlaps_start [OF rest' mem] False x have "fst x \<noteq> fst k" by simp
    with Cons.IH [OF rest mem] show ?thesis by simp
  qed
qed

lemma remove_overlaps_append:
  "remove_overlaps le (xs @ ys)
     = remove_overlaps le xs
       @ remove_overlaps (if remove_overlaps le xs = [] then le
                          else fst (snd (last (remove_overlaps le xs)))) ys"
proof (induction xs arbitrary: le)
  case Nil
  then show ?case by simp
next
  case (Cons x xs)
  obtain s e color bold where x: "x = (s, e, color, bold)" by (cases x)
  show ?case
  proof (cases "s \<ge> le")
    case True
    with x Cons.IH [of e] show ?thesis by simp
  next
    case False
    with x Cons.IH [of le] show ?thesis by simp
  qed
qed

lemma remove_overlaps_snoc:
  "remove_overlaps 0 (pre @ [c])
     = remove_overlaps 0 pre @ (if kept_end (remove_overlaps 0 pre) \<le> fst c then [c] else [])"
proof -
  obtain s e color bold where c: "c = (s, e, color, bold)" by (cases c)
  show ?thesis
    by (simp add: remove_overlaps_append [of 0 pre] kept_end_def c)
qed

lemma remove_overlaps_prefix:
  "prefix (remove_overlaps le xs) (remove_overlaps le (xs @ ys))"
  unfolding remove_overlaps_append [of le xs ys] by simp



text \<open>
  C4, as the code has it. Overlaps are resolved by position, not by the order of the
  patterns. The candidates are taken in the order of their start offsets (a stable sort,
  so candidates with the same start offset stay in the order of \<open>_SH_PATTERNS\<close>), and a
  candidate is kept exactly when it starts at or after the end of the span kept last.
  So kept spans do not overlap, every candidate that is dropped starts inside a kept
  span that starts no later, and a kept span is the first recorded of the candidates
  that start at its offset. Every kept span is a candidate as it was recorded: a span
  is dropped whole, never cut short.
\<close>

theorem overlap_resolution:
  "subseq (remove_overlaps 0 (sort_matches (collect_matches U SH_PATTERNS line)))
          (sort_matches (collect_matches U SH_PATTERNS line))
   \<and> sorted_wrt (\<lambda>a b. fst (snd a) \<le> fst b)
        (remove_overlaps 0 (sort_matches (collect_matches U SH_PATTERNS line)))
   \<and> (\<forall>c \<in> set (collect_matches U SH_PATTERNS line).
        c \<notin> set (remove_overlaps 0 (sort_matches (collect_matches U SH_PATTERNS line))) \<longrightarrow>
        (\<exists>k \<in> set (remove_overlaps 0 (sort_matches (collect_matches U SH_PATTERNS line))).
           fst k \<le> fst c \<and> fst c < fst (snd k)))
   \<and> (\<forall>k \<in> set (remove_overlaps 0 (sort_matches (collect_matches U SH_PATTERNS line))).
        k = hd (filter (\<lambda>c. fst c = fst k) (collect_matches U SH_PATTERNS line)))
   \<and> sorted (map fst (sort_matches (collect_matches U SH_PATTERNS line)))
   \<and> (\<forall>pre c post. sort_matches (collect_matches U SH_PATTERNS line) = pre @ c # post \<longrightarrow>
        remove_overlaps 0 (pre @ [c])
          = remove_overlaps 0 pre
            @ (if kept_end (remove_overlaps 0 pre) \<le> fst c then [c] else [])
        \<and> prefix (remove_overlaps 0 (pre @ [c]))
            (remove_overlaps 0 (sort_matches (collect_matches U SH_PATTERNS line))))"
proof -
  let ?cs = "sort_matches (collect_matches U SH_PATTERNS line)"
  have ok: "\<forall>c \<in> set ?cs. span_ok (length line) True c" by (rule sorted_candidates_ok)
  then have ok': "\<forall>c \<in> set ?cs. span_ok (length line) False c" by (auto dest: span_ok_weaken)
  have srt: "sorted (map fst ?cs)" by (simp add: sort_matches_def)
  have a: "subseq (remove_overlaps 0 ?cs) ?cs" by (rule remove_overlaps_subseq)
  have b: "sorted_wrt (\<lambda>a b. fst (snd a) \<le> fst b) (remove_overlaps 0 ?cs)"
    using ok' by (rule remove_overlaps_disjoint)
  have c: "\<exists>k \<in> set (remove_overlaps 0 ?cs). fst k \<le> fst c \<and> fst c < fst (snd k)"
    if "c \<in> set (collect_matches U SH_PATTERNS line)" "c \<notin> set (remove_overlaps 0 ?cs)" for c
  proof -
    from that(1) have mem: "c \<in> set ?cs" by (simp add: sort_matches_def)
    from ok mem have "0 \<le> fst c" by (cases c) auto
    with dropped_overlaps_kept [OF srt mem that(2)] show ?thesis by auto
  qed
  have d: "k = hd (filter (\<lambda>c. fst c = fst k) (collect_matches U SH_PATTERNS line))"
    if "k \<in> set (remove_overlaps 0 ?cs)" for k
  proof -
    from kept_is_first_at_offset [OF ok that]
    have "k = hd (filter (\<lambda>c. fst c = fst k) ?cs)" .
    then show ?thesis by (simp add: sort_matches_def sort_key_stable)
  qed
  have e: "remove_overlaps 0 (pre @ [c])
          = remove_overlaps 0 pre
            @ (if kept_end (remove_overlaps 0 pre) \<le> fst c then [c] else [])
        \<and> prefix (remove_overlaps 0 (pre @ [c])) (remove_overlaps 0 ?cs)"
    if "?cs = pre @ c # post" for pre c post
  proof -
    from that have "?cs = (pre @ [c]) @ post" by simp
    then have "prefix (remove_overlaps 0 (pre @ [c])) (remove_overlaps 0 ?cs)"
      by (simp only: remove_overlaps_prefix)
    with remove_overlaps_snoc [of pre c] show ?thesis by simp
  qed
  from a b c d srt e show ?thesis by blast
qed

theorem overlap_resolution_witness:
  "collect_matches ascii_db SH_PATTERNS (ustr ''admin@swp1/401151'')
     = [(0, 10, CLR_PROMPT, True), (11, 17, CLR_VNI, False), (6, 17, CLR_IFACE, False)]
   \<and> sort_matches (collect_matches ascii_db SH_PATTERNS (ustr ''admin@swp1/401151''))
     = [(0, 10, CLR_PROMPT, True), (6, 17, CLR_IFACE, False), (11, 17, CLR_VNI, False)]
   \<and> remove_overlaps 0 (sort_matches (collect_matches ascii_db SH_PATTERNS
                                         (ustr ''admin@swp1/401151'')))
     = [(0, 10, CLR_PROMPT, True), (11, 17, CLR_VNI, False)]
   \<and> (6, 17, CLR_IFACE, False)
       \<notin> set (remove_overlaps 0 (sort_matches (collect_matches ascii_db SH_PATTERNS
                                                  (ustr ''admin@swp1/401151''))))
   \<and> subseq [(0, 10, CLR_PROMPT, True), (11, 17, CLR_VNI, False) :: candidate]
        [(0, 10, CLR_PROMPT, True), (6, 17, CLR_IFACE, False), (11, 17, CLR_VNI, False)]
   \<and> hd (filter (\<lambda>c. fst c = 11)
           (collect_matches ascii_db SH_PATTERNS (ustr ''admin@swp1/401151'')))
       = (11, 17, CLR_VNI, False)
   \<and> kept_end [(0, 10, CLR_PROMPT, True)] = 10
   \<and> remove_overlaps 0 ([(0, 10, CLR_PROMPT, True)] @ [(6, 17, CLR_IFACE, False)])
       = [(0, 10, CLR_PROMPT, True)]"
proof -
  have a: "collect_matches ascii_db SH_PATTERNS (ustr ''admin@swp1/401151'')
     = [(0, 10, CLR_PROMPT, True), (11, 17, CLR_VNI, False), (6, 17, CLR_IFACE, False)]"
    by code_simp
  have b: "sort_matches (collect_matches ascii_db SH_PATTERNS (ustr ''admin@swp1/401151''))
     = [(0, 10, CLR_PROMPT, True), (6, 17, CLR_IFACE, False), (11, 17, CLR_VNI, False)]"
    unfolding a by (simp add: sort_matches_def)
  have c: "remove_overlaps 0 (sort_matches (collect_matches ascii_db SH_PATTERNS
                                         (ustr ''admin@swp1/401151'')))
     = [(0, 10, CLR_PROMPT, True), (11, 17, CLR_VNI, False)]"
    unfolding b by simp
  have d: "CLR_IFACE \<noteq> CLR_PROMPT" "CLR_IFACE \<noteq> CLR_VNI"
    by (simp_all add: CLR_IFACE_def CLR_PROMPT_def CLR_VNI_def)
  have ke: "kept_end [(0, 10, CLR_PROMPT, True)] = 10" by (simp add: kept_end_def)
  note t = overlap_resolution [of ascii_db "ustr ''admin@swp1/401151''"]
  from t have "subseq (remove_overlaps 0 (sort_matches (collect_matches ascii_db SH_PATTERNS
                                         (ustr ''admin@swp1/401151''))))
                 (sort_matches (collect_matches ascii_db SH_PATTERNS (ustr ''admin@swp1/401151'')))"
    by blast
  then have e: "subseq [(0, 10, CLR_PROMPT, True), (11, 17, CLR_VNI, False) :: candidate]
        [(0, 10, CLR_PROMPT, True), (6, 17, CLR_IFACE, False), (11, 17, CLR_VNI, False)]"
    unfolding c unfolding b .
  from t have "\<forall>k \<in> set (remove_overlaps 0 (sort_matches (collect_matches ascii_db SH_PATTERNS
                                         (ustr ''admin@swp1/401151'')))).
        k = hd (filter (\<lambda>c. fst c = fst k)
                  (collect_matches ascii_db SH_PATTERNS (ustr ''admin@swp1/401151'')))"
    by blast
  then have f: "hd (filter (\<lambda>c. fst c = 11)
               (collect_matches ascii_db SH_PATTERNS (ustr ''admin@swp1/401151'')))
       = (11, 17, CLR_VNI, False)"
    unfolding c by simp
  from t have "\<forall>pre c post.
        sort_matches (collect_matches ascii_db SH_PATTERNS (ustr ''admin@swp1/401151''))
          = pre @ c # post \<longrightarrow>
        remove_overlaps 0 (pre @ [c])
          = remove_overlaps 0 pre
            @ (if kept_end (remove_overlaps 0 pre) \<le> fst c then [c] else [])"
    by blast
  from this [rule_format, of "[(0, 10, CLR_PROMPT, True)]" "(6, 17, CLR_IFACE, False)"
               "[(11, 17, CLR_VNI, False)]"] b ke
  have g: "remove_overlaps 0 ([(0, 10, CLR_PROMPT, True)] @ [(6, 17, CLR_IFACE, False)])
       = [(0, 10, CLR_PROMPT, True)]" by simp
  have h: "(6, 17, CLR_IFACE, False)
       \<notin> set (remove_overlaps 0 (sort_matches (collect_matches ascii_db SH_PATTERNS
                                                  (ustr ''admin@swp1/401151''))))"
    unfolding c using d by simp
  from a b c e f g h ke show ?thesis by blast
qed

text \<open>
  The claim as the specification words it fails on the line \<open>vni-401151\<close>: the pattern
  of the numeric identifiers (the eighth of the list) matches \<open>401151\<close> at offsets 4 to
  10, the second interface pattern (the tenth) matches the whole line, the two spans
  overlap, and the span that is kept is the one of the later pattern.
\<close>

theorem pattern_priority_counterexample:
  "SH_PATTERNS ! 7 = (re_compile re_vni, CLR_VNI, False)
   \<and> SH_PATTERNS ! 9 = (re_compile re_versa_iface, CLR_IFACE, False)
   \<and> finditer ascii_db (re_compile re_vni) (ustr ''vni-401151'')
       = [\<lparr>m_span = (4, 10), m_group1 = Some (4, 10)\<rparr>]
   \<and> finditer ascii_db (re_compile re_versa_iface) (ustr ''vni-401151'')
       = [\<lparr>m_span = (0, 10), m_group1 = Some (0, 10)\<rparr>]
   \<and> remove_overlaps 0 (sort_matches (collect_matches ascii_db SH_PATTERNS (ustr ''vni-401151'')))
       = [(0, 10, CLR_IFACE, False)]
   \<and> colorize_line ascii_db (ustr ''vni-401151'') = [(ustr ''vni-401151'', CLR_IFACE, False)]"
proof (intro conjI)
  show "SH_PATTERNS ! 7 = (re_compile re_vni, CLR_VNI, False)"
    by (simp add: SH_PATTERNS_def)
  show "SH_PATTERNS ! 9 = (re_compile re_versa_iface, CLR_IFACE, False)"
    by (simp add: SH_PATTERNS_def)
  show "finditer ascii_db (re_compile re_vni) (ustr ''vni-401151'')
       = [\<lparr>m_span = (4, 10), m_group1 = Some (4, 10)\<rparr>]" by code_simp
  show "finditer ascii_db (re_compile re_versa_iface) (ustr ''vni-401151'')
       = [\<lparr>m_span = (0, 10), m_group1 = Some (0, 10)\<rparr>]" by code_simp
  show "remove_overlaps 0 (sort_matches (collect_matches ascii_db SH_PATTERNS (ustr ''vni-401151'')))
       = [(0, 10, CLR_IFACE, False)]" by code_simp
  show "colorize_line ascii_db (ustr ''vni-401151'') = [(ustr ''vni-401151'', CLR_IFACE, False)]"
    by code_simp
qed

section \<open>The allow-list of numeric identifiers\<close>

lemma lit_match:
  assumes "st' \<in> set (rmatch U False (lit c) st)"
  shows "ms_rest st = of_char c # ms_rest st' \<and> ms_grp st' = ms_grp st
         \<and> ms_pos st' = Suc (ms_pos st)"
  using assms
  by (cases "ms_rest st") (auto simp: lit_def advance_def split: if_splits)

lemma str_match:
  "st' \<in> set (rmatch U False (str w) st) \<Longrightarrow>
     ms_rest st = ustr w @ ms_rest st' \<and> ms_grp st' = ms_grp st
     \<and> ms_pos st' = ms_pos st + length w"
proof (induction w arbitrary: st rule: induct_list012)
  case 1
  then show ?case by (simp add: str_def ustr_simps)
next
  case (2 c)
  from lit_match [of st' U c st] 2 show ?case by (simp add: str_def ustr_simps)
next
  case (3 c d w)
  from 3(3) obtain st'' where a: "st'' \<in> set (rmatch U False (lit c) st)"
    and b: "st' \<in> set (rmatch U False (str (d # w)) st'')"
    by (auto simp: str_def)
  from lit_match [OF a] 3(2) [OF b] show ?case by (simp add: ustr_simps)
qed

lemma wordb_match: "st' \<in> set (rmatch U ic WordB st) \<Longrightarrow> st' = st"
  by (simp split: if_splits)

lemma re_vni_match:
  assumes "st' \<in> set (rmatch U False re_vni st)"
  shows "\<exists>w \<in> set vni_allow_list.
           ms_grp st' = Some (ms_pos st, ms_pos st + length w)
           \<and> take (length w) (ms_rest st) = ustr w"
proof -
  let ?A = "alt [str ''401151'', str ''401152'', str ''401153'', str ''50101'']"
  from assms obtain s1 s2 where
    1: "s1 \<in> set (rmatch U False WordB st)" and
    2: "s2 \<in> set (rmatch U False (Group ?A) s1)" and
    3: "st' \<in> set (rmatch U False WordB s2)"
    by (auto simp: re_vni_def)
  from wordb_match [OF 1] wordb_match [OF 3] have e: "s1 = st" "st' = s2" by simp_all
  from 2 e obtain s3 where 4: "s3 \<in> set (rmatch U False ?A st)"
    and 5: "st' = s3\<lparr>ms_grp := Some (ms_pos st, ms_pos s3)\<rparr>" by auto
  from 4 have "\<exists>w \<in> set vni_allow_list. s3 \<in> set (rmatch U False (str w) st)"
    by (auto simp: vni_allow_list_def)
  then obtain w where w: "w \<in> set vni_allow_list" "s3 \<in> set (rmatch U False (str w) st)"
    by blast
  from str_match [OF w(2)] 5
  have "ms_grp st' = Some (ms_pos st, ms_pos st + length w)
        \<and> take (length w) (ms_rest st) = ustr w"
    by (simp add: ustr_def)
  with w(1) show ?thesis by blast
qed

lemma match_at_re_vni:
  assumes "match_at U (re_compile re_vni) adv prev rest pos = Some m"
  shows "\<exists>w \<in> set vni_allow_list.
           m_group1 m = Some (pos, pos + length w) \<and> take (length w) rest = ustr w"
proof -
  let ?st = "\<lparr>ms_prev = prev, ms_rest = rest, ms_pos = pos, ms_grp = None\<rparr>"
  from assms obtain st' sts where
    f: "filter (\<lambda>st. \<not> (adv \<and> ms_pos st = pos)) (rmatch U False re_vni ?st) = st' # sts"
    and m: "m = \<lparr>m_span = (pos, ms_pos st'), m_group1 = ms_grp st'\<rparr>"
    by (auto simp: match_at_def re_compile_def split: list.splits)
  from f have "st' \<in> set (filter (\<lambda>st. \<not> (adv \<and> ms_pos st = pos))
                    (rmatch U False re_vni ?st))" by simp
  then have "st' \<in> set (rmatch U False re_vni ?st)" by simp
  from re_vni_match [OF this] m show ?thesis by simp
qed

lemma finditer_re_vni:
  assumes "m \<in> set (finditer U (re_compile re_vni) line)"
  shows "\<exists>w \<in> set vni_allow_list. \<exists>q.
           m_group1 m = Some (q, q + length w) \<and> take (length w) (drop q line) = ustr w"
proof -
  from assms scan_origin [of m U "re_compile re_vni" 0 None line 0]
  obtain adv prev' k where
    "match_at U (re_compile re_vni) adv prev' (drop k line) k = Some m"
    by (auto simp: finditer_def)
  from match_at_re_vni [OF this] show ?thesis by blast
qed

lemma slice_take_drop:
  assumes "take k (drop q line) = w" and "length w = k"
  shows "slice line (int q) (int (q + k)) = w"
proof (cases "k = 0")
  case True
  with assms show ?thesis by (simp add: slice_def clamp_index_def Let_def)
next
  case False
  from assms have "length (take k (drop q line)) = k" by simp
  then have "k \<le> length line - q" by simp
  with False have "q + k \<le> length line" and "q \<le> length line" by simp_all
  moreover have "nat (int q + int k) = q + k" by linarith
  ultimately show ?thesis using assms(1)
    by (simp add: slice_def clamp_index_def Let_def min_def)
qed

lemma only_re_vni_is_purple:
  "(p, CLR_VNI, bold) \<in> set SH_PATTERNS \<Longrightarrow> p = re_compile re_vni"
  by (simp add: SH_PATTERNS_def CLR_VNI_def CLR_COMMENT_def CLR_PROMPT_def CLR_IP_def
      CLR_MAC_def CLR_GREEN_def CLR_RED_def CLR_IFACE_def CLR_KEYWORD_def)

lemma vni_candidate:
  assumes "(s, e, CLR_VNI, bold) \<in> set (collect_matches U SH_PATTERNS line)"
  shows "slice line s e \<in> ustr ` set vni_allow_list"
proof -
  from assms obtain p color bold' m where
    p: "(p, color, bold') \<in> set SH_PATTERNS" and m: "m \<in> set (finditer U p line)"
    and c: "(s, e, CLR_VNI, bold) = (fst (span_of m), snd (span_of m), color, bold')"
    by (rule collect_matches_mem)
  from c p have "(p, CLR_VNI, bold') \<in> set SH_PATTERNS" by simp
  then have "p = re_compile re_vni" by (rule only_re_vni_is_purple)
  with m finditer_re_vni obtain w q where
    w: "w \<in> set vni_allow_list" "m_group1 m = Some (q, q + length w)"
       "take (length w) (drop q line) = ustr w" by blast
  from w(2) c have se: "s = int q" "e = int (q + length w)" by (simp_all add: span_of_cases)
  from slice_take_drop [OF w(3)] se have "slice line s e = ustr w" by (simp add: ustr_def)
  with w(1) show ?thesis by blast
qed

lemma build_segments_origin:
  "seg \<in> set (build_segments line pos fs) \<Longrightarrow>
     snd seg = (CLR_DEFAULT, False)
     \<or> (\<exists>s e color bold. (s, e, color, bold) \<in> set fs \<and> seg = (slice line s e, color, bold))"
proof (induction fs arbitrary: pos)
  case Nil
  then show ?case by (simp split: if_splits)
next
  case (Cons c fs)
  obtain s e color bold where c: "c = (s, e, color, bold)" by (cases c)
  from Cons.prems c have
    "seg = (slice line pos s, CLR_DEFAULT, False) \<or> seg = (slice line s e, color, bold)
     \<or> seg \<in> set (build_segments line e fs)"
    by (auto split: if_splits)
  then show ?case
  proof (elim disjE)
    assume "seg = (slice line pos s, CLR_DEFAULT, False)"
    then show ?thesis by simp
  next
    assume "seg = (slice line s e, color, bold)"
    with c show ?thesis by auto
  next
    assume "seg \<in> set (build_segments line e fs)"
    from Cons.IH [OF this] show ?thesis by auto
  qed
qed

lemma remove_overlaps_subset: "set (remove_overlaps le cs) \<subseteq> set cs"
proof (induction cs arbitrary: le)
  case Nil
  then show ?case by simp
next
  case (Cons c cs)
  obtain s e color bold where c: "c = (s, e, color, bold)" by (cases c)
  from Cons.IH [of e] Cons.IH [of le] c show ?case by (auto split: if_splits)
qed

lemma CLR_VNI_distinct: "CLR_VNI \<noteq> CLR_DEFAULT" "CLR_VNI \<noteq> CLR_COMMENT"
  by (simp_all add: CLR_VNI_def CLR_DEFAULT_def CLR_COMMENT_def)

lemma vni_segments:
  assumes "seg \<in> set (colorize_line U line)" and "fst (snd seg) = CLR_VNI"
  shows "fst seg \<in> ustr ` set vni_allow_list"
proof (cases "is_comment_line U line")
  case True
  with assms CLR_VNI_distinct show ?thesis
    by (auto simp: colorize_line_def colorize_with_def)
next
  case False
  let ?f = "remove_overlaps 0 (sort_matches (collect_matches U SH_PATTERNS line))"
  from assms False CLR_VNI_distinct have "seg \<in> set (build_segments line 0 ?f)"
    by (auto simp: colorize_line_unfold Let_def split: if_splits)
  from build_segments_origin [OF this] assms(2) CLR_VNI_distinct
  obtain s e bold where k: "(s, e, CLR_VNI, bold) \<in> set ?f" and seg: "seg = (slice line s e, CLR_VNI, bold)"
    by auto
  from k remove_overlaps_subset [of 0 "sort_matches (collect_matches U SH_PATTERNS line)"]
  have "(s, e, CLR_VNI, bold) \<in> set (collect_matches U SH_PATTERNS line)"
    by (auto simp: sort_matches_def)
  from vni_candidate [OF this] seg show ?thesis by simp
qed

text \<open>
  C6. Only the four literals 401151, 401152, 401153 and 50101 are ever given the colour
  of the numeric identifiers: in every line, a segment of that colour is one of them.
  Each of the four is coloured when it stands alone, other numbers are not, and in the
  line \<open>aa:bb:cc:00:24:00 CA 1151\<close> the MAC address is coloured and \<open>1151\<close> stays in
  the default colour with the rest of the line.
\<close>

theorem vni_allow_list_only:
  "colorize_line U (ustr ''aa:bb:cc:00:24:00 CA 1151'')
     = [(ustr ''aa:bb:cc:00:24:00'', CLR_MAC, False), (ustr '' CA 1151'', CLR_DEFAULT, False)]
   \<and> (\<forall>seg \<in> set (colorize_line U line).
        fst (snd seg) = CLR_VNI \<longrightarrow>
        fst seg \<in> {ustr ''401151'', ustr ''401152'', ustr ''401153'', ustr ''50101''})
   \<and> colorize_line U (ustr ''401151'') = [(ustr ''401151'', CLR_VNI, False)]
   \<and> colorize_line U (ustr ''401152'') = [(ustr ''401152'', CLR_VNI, False)]
   \<and> colorize_line U (ustr ''401153'') = [(ustr ''401153'', CLR_VNI, False)]
   \<and> colorize_line U (ustr ''50101'') = [(ustr ''50101'', CLR_VNI, False)]
   \<and> colorize_line U (ustr ''1151'') = [(ustr ''1151'', CLR_DEFAULT, False)]
   \<and> colorize_line U (ustr ''401154'') = [(ustr ''401154'', CLR_DEFAULT, False)]
   \<and> colorize_line U (ustr ''4011510'') = [(ustr ''4011510'', CLR_DEFAULT, False)]"
proof (intro conjI)
  show "colorize_line U (ustr ''aa:bb:cc:00:24:00 CA 1151'')
     = [(ustr ''aa:bb:cc:00:24:00'', CLR_MAC, False), (ustr '' CA 1151'', CLR_DEFAULT, False)]"
    by code_simp
  show "\<forall>seg \<in> set (colorize_line U line).
        fst (snd seg) = CLR_VNI \<longrightarrow>
        fst seg \<in> {ustr ''401151'', ustr ''401152'', ustr ''401153'', ustr ''50101''}"
    using vni_segments [of _ U line] by (auto simp: vni_allow_list_def)
  show "colorize_line U (ustr ''401151'') = [(ustr ''401151'', CLR_VNI, False)]" by code_simp
  show "colorize_line U (ustr ''401152'') = [(ustr ''401152'', CLR_VNI, False)]" by code_simp
  show "colorize_line U (ustr ''401153'') = [(ustr ''401153'', CLR_VNI, False)]" by code_simp
  show "colorize_line U (ustr ''50101'') = [(ustr ''50101'', CLR_VNI, False)]" by code_simp
  show "colorize_line U (ustr ''1151'') = [(ustr ''1151'', CLR_DEFAULT, False)]" by code_simp
  show "colorize_line U (ustr ''401154'') = [(ustr ''401154'', CLR_DEFAULT, False)]" by code_simp
  show "colorize_line U (ustr ''4011510'') = [(ustr ''4011510'', CLR_DEFAULT, False)]"
    by code_simp
qed

theorem vni_allow_list_only_witness:
  "colorize_line ascii_db (ustr ''show evpn vni 401151'')
     = [(ustr ''show evpn vni '', CLR_DEFAULT, False), (ustr ''401151'', CLR_VNI, False)]
   \<and> fst (snd (ustr ''401151'', CLR_VNI, False)) = CLR_VNI
   \<and> ustr ''401151'' \<in> {ustr ''401151'', ustr ''401152'', ustr ''401153'', ustr ''50101''}
   \<and> colorize_line ascii_db (ustr ''aa:bb:cc:00:24:00 CA 1151'')
     = [(ustr ''aa:bb:cc:00:24:00'', CLR_MAC, False), (ustr '' CA 1151'', CLR_DEFAULT, False)]"
proof -
  have a: "colorize_line ascii_db (ustr ''show evpn vni 401151'')
     = [(ustr ''show evpn vni '', CLR_DEFAULT, False), (ustr ''401151'', CLR_VNI, False)]"
    by code_simp
  from vni_allow_list_only [of ascii_db "ustr ''show evpn vni 401151''"] a
  show ?thesis by simp
qed

section \<open>Comment lines\<close>

text \<open>
  C3. A line whose stripped form starts with \<open>#\<close> or \<open>!\<close> is returned as one segment
  holding the whole line as it came, in the comment colour and not bold. The patterns
  are not consulted: the result is the same for every list of patterns.
\<close>

theorem comment_short_circuit:
  assumes "startswith (strip U line) (ustr ''#'') \<or> startswith (strip U line) (ustr ''!'')"
  shows "colorize_line U line = [(line, CLR_COMMENT, False)]
         \<and> (\<forall>pats. colorize_with U pats line = [(line, CLR_COMMENT, False)])"
  using assms by (simp add: colorize_line_def colorize_with_def is_comment_line_def)

theorem comment_short_circuit_witness:
  "(startswith (strip ascii_db (ustr ''  # comment with 1.1.1.1 inside'')) (ustr ''#'')
      \<or> startswith (strip ascii_db (ustr ''  # comment with 1.1.1.1 inside'')) (ustr ''!''))
   \<and> colorize_line ascii_db (ustr ''  # comment with 1.1.1.1 inside'')
       = [(ustr ''  # comment with 1.1.1.1 inside'', CLR_COMMENT, False)]
   \<and> colorize_with ascii_db [] (ustr ''  # comment with 1.1.1.1 inside'')
       = [(ustr ''  # comment with 1.1.1.1 inside'', CLR_COMMENT, False)]"
proof -
  have h: "startswith (strip ascii_db (ustr ''  # comment with 1.1.1.1 inside'')) (ustr ''#'')"
    by (simp add: startswith_def strip_def ustr_simps is_space_def)
  from comment_short_circuit [of ascii_db "ustr ''  # comment with 1.1.1.1 inside''"] h
  show ?thesis by blast
qed

section \<open>The save loop\<close>

text \<open>
  C9. The loop calls \<open>doc.save\<close> on the candidates with the candidate_suffixes \<open>_v3\<close>, \<open>_v3a\<close>,
  \<open>_v3b\<close>, in this order and on no other path. A \<open>PermissionError\<close> moves on to the next
  candidate; the first save that succeeds ends the loop with its path in \<open>output_path\<close>
  and nothing more is tried; any other exception leaves the loop at once.
\<close>

theorem save_loop_candidates:
  fixes save :: "'w save_fn"
  shows
    "candidate_suffixes = [''_v3'', ''_v3a'', ''_v3b'']
     \<and> prefix (fst (snd (save_loop save b candidate_suffixes None w)))
          [path_of b ''_v3'', path_of b ''_v3a'', path_of b ''_v3b'']
     \<and> (save (path_of b ''_v3'') w = (None, w1) \<longrightarrow>
          save_loop save b candidate_suffixes None w
            = (Inr (Some (path_of b ''_v3'')), [path_of b ''_v3''], w1))
     \<and> (save (path_of b ''_v3'') w = (Some PermissionError, w1)
          \<and> save (path_of b ''_v3a'') w1 = (None, w2) \<longrightarrow>
          save_loop save b candidate_suffixes None w
            = (Inr (Some (path_of b ''_v3a'')), [path_of b ''_v3'', path_of b ''_v3a''], w2))
     \<and> (save (path_of b ''_v3'') w = (Some PermissionError, w1)
          \<and> save (path_of b ''_v3a'') w1 = (Some PermissionError, w2)
          \<and> save (path_of b ''_v3b'') w2 = (None, w3) \<longrightarrow>
          save_loop save b candidate_suffixes None w
            = (Inr (Some (path_of b ''_v3b'')),
               [path_of b ''_v3'', path_of b ''_v3a'', path_of b ''_v3b''], w3))
     \<and> (e \<noteq> PermissionError \<and> save (path_of b ''_v3'') w = (Some e, w1) \<longrightarrow>
          save_loop save b candidate_suffixes None w = (Inl e, [path_of b ''_v3''], w1))
     \<and> (e \<noteq> PermissionError \<and> save (path_of b ''_v3'') w = (Some PermissionError, w1)
          \<and> save (path_of b ''_v3a'') w1 = (Some e, w2) \<longrightarrow>
          save_loop save b candidate_suffixes None w
            = (Inl e, [path_of b ''_v3'', path_of b ''_v3a''], w2))
     \<and> (e \<noteq> PermissionError \<and> save (path_of b ''_v3'') w = (Some PermissionError, w1)
          \<and> save (path_of b ''_v3a'') w1 = (Some PermissionError, w2)
          \<and> save (path_of b ''_v3b'') w2 = (Some e, w3) \<longrightarrow>
          save_loop save b candidate_suffixes None w
            = (Inl e, [path_of b ''_v3'', path_of b ''_v3a'', path_of b ''_v3b''], w3))"
proof -
  have pre: "prefix (fst (snd (save_loop save b candidate_suffixes None w)))
          [path_of b ''_v3'', path_of b ''_v3a'', path_of b ''_v3b'']"
    by (simp add: candidate_suffixes_def Let_def split: prod.splits option.splits)
  show ?thesis
    apply (intro conjI impI)
           apply (simp add: candidate_suffixes_def)
          apply (rule pre)
         apply (simp_all add: candidate_suffixes_def Let_def)
    done
qed

theorem save_loop_candidates_witness:
  "first_locked (path_of example_base ''_v3'') [] = (Some PermissionError, [])
   \<and> first_locked (path_of example_base ''_v3a'') [] = (None, [path_of example_base ''_v3a''])
   \<and> save_loop first_locked example_base candidate_suffixes None []
       = (Inr (Some (path_of example_base ''_v3a'')),
          [path_of example_base ''_v3'', path_of example_base ''_v3a''],
          [path_of example_base ''_v3a''])
   \<and> OtherException ''OSError'' \<noteq> PermissionError
   \<and> disk_full (path_of example_base ''_v3'') [] = (Some (OtherException ''OSError''), [])
   \<and> save_loop disk_full example_base candidate_suffixes None []
       = (Inl (OtherException ''OSError''), [path_of example_base ''_v3''], [])"
proof -
  have a: "first_locked (path_of example_base ''_v3'') [] = (Some PermissionError, [])"
    by (simp add: first_locked_def)
  have b: "first_locked (path_of example_base ''_v3a'') []
             = (None, [path_of example_base ''_v3a''])"
    by (simp add: first_locked_def path_of_def ustr_simps)
  have c: "disk_full (path_of example_base ''_v3'') [] = (Some (OtherException ''OSError''), [])"
    by (simp add: disk_full_def)
  from a b
    save_loop_candidates [of first_locked example_base "[]" "[]" "[path_of example_base ''_v3a'']"]
  have d: "save_loop first_locked example_base candidate_suffixes None []
       = (Inr (Some (path_of example_base ''_v3a'')),
          [path_of example_base ''_v3'', path_of example_base ''_v3a''],
          [path_of example_base ''_v3a''])"
    by blast
  from c save_loop_candidates [of disk_full example_base "[]" "[]" _ _ "OtherException ''OSError''"]
  have e: "save_loop disk_full example_base candidate_suffixes None []
       = (Inl (OtherException ''OSError''), [path_of example_base ''_v3''], [])"
    by blast
  from a b c d e show ?thesis by simp
qed

text \<open>
  C10. When \<open>doc.save\<close> raises \<open>PermissionError\<close> on all three candidates, the loop ends
  without an exception and with \<open>output_path\<close> bound to the last candidate; the script
  goes on to print \<open>Word document saved:\<close> with that path, although nothing was saved.
  Only the call of \<open>os.path.getsize\<close> in the second \<open>print\<close> can still fail.
\<close>

theorem exhausted_loop_reports_success:
  fixes save :: "'w save_fn"
  assumes "save (path_of b ''_v3'') w = (Some PermissionError, w1)"
      and "save (path_of b ''_v3a'') w1 = (Some PermissionError, w2)"
      and "save (path_of b ''_v3b'') w2 = (Some PermissionError, w3)"
  shows "save_loop save b candidate_suffixes None w
           = (Inr (Some (path_of b ''_v3b'')),
              [path_of b ''_v3'', path_of b ''_v3a'', path_of b ''_v3b''], w3)
         \<and> save_and_report save getsize b w
           = (case getsize (path_of b ''_v3b'') w3 of
                Inl e \<Rightarrow> (Some e, [Saved_line (path_of b ''_v3b'')],
                          [path_of b ''_v3'', path_of b ''_v3a'', path_of b ''_v3b''], w3)
              | Inr n \<Rightarrow> (None, [Saved_line (path_of b ''_v3b''), Size_line n],
                          [path_of b ''_v3'', path_of b ''_v3a'', path_of b ''_v3b''], w3))
         \<and> hd (fst (snd (save_and_report save getsize b w))) = Saved_line (path_of b ''_v3b'')"
  using assms by (simp add: save_and_report_def candidate_suffixes_def Let_def split: sum.splits)

theorem exhausted_loop_reports_success_witness:
  "all_locked (path_of example_base ''_v3'') [] = (Some PermissionError, [])
   \<and> all_locked (path_of example_base ''_v3a'') [] = (Some PermissionError, [])
   \<and> all_locked (path_of example_base ''_v3b'') [] = (Some PermissionError, [])
   \<and> save_loop all_locked example_base candidate_suffixes None []
       = (Inr (Some (path_of example_base ''_v3b'')),
          [path_of example_base ''_v3'', path_of example_base ''_v3a'',
           path_of example_base ''_v3b''], [])
   \<and> save_and_report all_locked size_of_written example_base []
       = (Some (OtherException ''FileNotFoundError''),
          [Saved_line (path_of example_base ''_v3b'')],
          [path_of example_base ''_v3'', path_of example_base ''_v3a'',
           path_of example_base ''_v3b''], [])"
proof -
  have a: "all_locked (path_of example_base ''_v3'') [] = (Some PermissionError, [])"
    and b: "all_locked (path_of example_base ''_v3a'') [] = (Some PermissionError, [])"
    and c: "all_locked (path_of example_base ''_v3b'') [] = (Some PermissionError, [])"
    by (simp_all add: all_locked_def)
  from exhausted_loop_reports_success
         [where save = all_locked and b = example_base and w = "[]" and ?w1.0 = "[]"
            and ?w2.0 = "[]" and ?w3.0 = "[]" and getsize = size_of_written, OF a b c]
       a b c
  show ?thesis by (simp add: size_of_written_def)
qed

end
